theory Spec2Isabelle
  imports Main
begin

chapter \<open>Model of the extension's image pipeline\<close>

section \<open>JavaScript strings\<close>

text \<open>
  A JavaScript string is modelled by its UTF-8 encoding, a \<^typ>\<open>string\<close> of bytes: an
  ASCII character is one byte, and every other character is a sequence of bytes from
  0x80 upwards. The patterns that the sources search for, split at and replace are
  ASCII, so that working byte by byte gives the encoding of what JavaScript computes on
  the string itself. The three basic operations are \<^verbatim>\<open>startsWith\<close>-style matching,
  \<^verbatim>\<open>String.prototype.includes\<close> and \<^verbatim>\<open>String.prototype.replace\<close> with a string
  pattern, which replaces the first occurrence only.
\<close>

fun starts_with :: "string \<Rightarrow> string \<Rightarrow> bool" where
  "starts_with s [] = True"
| "starts_with [] (p # ps) = False"
| "starts_with (c # cs) (p # ps) = (c = p \<and> starts_with cs ps)"

fun includes_str :: "string \<Rightarrow> string \<Rightarrow> bool" where
  "includes_str [] sub = (sub = [])"
| "includes_str (c # cs) sub = (starts_with (c # cs) sub \<or> includes_str cs sub)"

fun replace_str :: "string \<Rightarrow> string \<Rightarrow> string \<Rightarrow> string" where
  "replace_str [] pat rep = (if pat = [] then rep else [])"
| "replace_str (c # cs) pat rep =
     (if starts_with (c # cs) pat then rep @ drop (length pat) (c # cs)
      else c # replace_str cs pat rep)"

section \<open>Background service worker (background.js)\<close>

text \<open>
  A blob is its byte sequence. A \<^verbatim>\<open>fetch\<close> either rejects (network failure) or
  yields a response with its \<^verbatim>\<open>ok\<close> flag, status and body; reading the body
  (\<^verbatim>\<open>response.blob()\<close>) may itself reject, which is the body \<open>None\<close>.
\<close>

type_synonym blob = "nat list"

datatype credentials = Omit | SameOrigin | Include

record request =
  req_url :: string
  req_method :: string
  req_mode :: string
  req_credentials :: credentials
  req_cache :: string
  req_referrer :: "string option"

datatype fetch_result = NetworkError | Response bool nat "blob option"

datatype response = Success string nat | Failure string

text \<open>
  The message a content script sends: the target URL and the URI of the page it runs in
  (\<^verbatim>\<open>referer: window.location.href\<close>).
\<close>

record message =
  msg_url :: string
  msg_referer :: string

text \<open>
  The network answers the \<open>n\<close>-th request of a handler run; two requests for the same
  URL may be answered differently.
\<close>

type_synonym network = "nat \<Rightarrow> request \<Rightarrow> fetch_result"

text \<open>
  Every \<^verbatim>\<open>fetch\<close> call of background.js passes the same init object
  \<^verbatim>\<open>{method: 'GET', mode: 'cors', credentials: 'omit', cache: 'no-cache'}\<close> and sets
  no referrer.
\<close>

definition mk_request :: "string \<Rightarrow> request" where
  "mk_request url =
     \<lparr>req_url = url, req_method = ''GET'', req_mode = ''cors'',
      req_credentials = Omit, req_cache = ''no-cache'', req_referrer = None\<rparr>"

text \<open>
  One guarded attempt of the FETCH_IMAGE_OFFSCREEN handler:
  \<^verbatim>\<open>try { response = await fetch(u, init); if (response.ok) imageBlob = await response.blob() } catch {}\<close>.
  The result is the request log and the blob obtained, if any.
\<close>

definition try_fetch :: "network \<Rightarrow> request list \<Rightarrow> string \<Rightarrow> request list \<times> blob option" where
  "try_fetch net log url =
     (let rq = mk_request url in
      case net (length log) rq of
        NetworkError \<Rightarrow> (log @ [rq], None)
      | Response ok st body \<Rightarrow> (log @ [rq], if ok then body else None))"

definition jpg_variant :: "string \<Rightarrow> string" where
  "jpg_variant url = replace_str (replace_str url ''_webp/'' ''/'') ''.webp'' ''.jpg''"

definition png_variant :: "string \<Rightarrow> string" where
  "png_variant url = replace_str (replace_str url ''_webp/'' ''/'') ''.webp'' ''.png''"

text \<open>
  The three attempts. The guard of the second and third attempt is
  \<^verbatim>\<open>!imageBlob && message.url.includes('_webp/')\<close>: a blob object, also an empty one,
  is truthy.
\<close>

definition fetch_attempts :: "network \<Rightarrow> string \<Rightarrow> request list \<times> blob option" where
  "fetch_attempts net url =
     (let (log1, b1) = try_fetch net [] url;
          (log2, b2) = (if b1 = None \<and> includes_str url ''_webp/''
                        then try_fetch net log1 (jpg_variant url) else (log1, b1));
          (log3, b3) = (if b2 = None \<and> includes_str url ''_webp/''
                        then try_fetch net log2 (png_variant url) else (log2, b2))
      in (log3, b3))"

text \<open>
  The whole FETCH_IMAGE_OFFSCREEN handler. After the attempts,
  \<^verbatim>\<open>if (!imageBlob || imageBlob.size === 0)\<close> answers with the failure; otherwise the
  blob is read as a data URL (\<open>reader\<close>, \<open>None\<close> when the FileReader errors) and sent to
  the offscreen document (\<open>relay\<close>), whose answer is passed on.
\<close>

definition fetch_image_offscreen ::
  "network \<Rightarrow> (blob \<Rightarrow> string option) \<Rightarrow> (string \<Rightarrow> response) \<Rightarrow> message \<Rightarrow> request list \<times> response" where
  "fetch_image_offscreen net reader relay m =
     (let (log, b) = fetch_attempts net (msg_url m) in
      case b of
        None \<Rightarrow> (log, Failure ''Failed to fetch image from all URLs'')
      | Some bytes \<Rightarrow>
          if length bytes = 0 then (log, Failure ''Failed to fetch image from all URLs'')
          else (case reader bytes of
                  None \<Rightarrow> (log, Failure ''FileReader error'')
                | Some dataUrl \<Rightarrow> (log, relay dataUrl)))"

text \<open>
  The FETCH_IMAGE handler: one fetch; a response that is not ok answers
  \<^verbatim>\<open>HTTP <status>\<close> (the status is kept as a number here), a rejected fetch or body
  read answers the error's message.
\<close>

datatype fetch_image_response =
  FetchOk string nat | HttpError nat | FetchException | ReaderError

definition fetch_image ::
  "network \<Rightarrow> (blob \<Rightarrow> string option) \<Rightarrow> message \<Rightarrow> request list \<times> fetch_image_response" where
  "fetch_image net reader m =
     (let rq = mk_request (msg_url m) in
      case net 0 rq of
        NetworkError \<Rightarrow> ([rq], FetchException)
      | Response ok st body \<Rightarrow>
          if \<not> ok then ([rq], HttpError st)
          else (case body of
                  None \<Rightarrow> ([rq], FetchException)
                | Some bytes \<Rightarrow>
                    (case reader bytes of
                       None \<Rightarrow> ([rq], ReaderError)
                     | Some dataUrl \<Rightarrow> ([rq], FetchOk dataUrl (length bytes)))))"

text \<open>
  Modelled from the spec: the declarative request rules (rules.json, named by
  background.js as what adds the Referer header) are not among the sources. The spec
  says that the hostile host requires a fixed referrer value rather than the page's
  own; the rule is modelled as setting the referrer of every request whose URL names
  the hostile asset domain.
\<close>

definition pixiv_referrer :: string where
  "pixiv_referrer = ''https://www.pixiv.net/''"

definition apply_rules :: "request \<Rightarrow> request" where
  "apply_rules rq =
     (if includes_str (req_url rq) ''pximg.net''
      then rq\<lparr>req_referrer := Some pixiv_referrer\<rparr> else rq)"

text \<open>
  A network on which the original URL answers 200 with an empty body while both
  sibling URLs would deliver three bytes, and one on which the original URL is refused
  (404), the JPG sibling answers 200 with an empty body and the PNG sibling would
  deliver.
\<close>

definition net_empty_primary :: network where
  "net_empty_primary n rq =
     (if req_url rq = ''https://i.pximg.net/img_webp/a.webp''
      then Response True 200 (Some []) else Response True 200 (Some [1, 2, 3]))"

definition net_empty_jpg :: network where
  "net_empty_jpg n rq =
     (if req_url rq = ''https://i.pximg.net/img_webp/a.webp'' then Response False 404 None
      else if req_url rq = ''https://i.pximg.net/img/a.jpg'' then Response True 200 (Some [])
      else Response True 200 (Some [1, 2, 3]))"

definition webp_message :: message where
  "webp_message =
     \<lparr>msg_url = ''https://i.pximg.net/img_webp/a.webp'',
      msg_referer = ''https://www.pixiv.net/artworks/1''\<rparr>"

section \<open>Offscreen document (offscreen.js): re-encoding with a decode timeout\<close>

text \<open>
  \<^verbatim>\<open>handleImageData\<close> creates a promise whose executor arms a timer of 10000 ms that
  rejects with "Image load timeout", installs the \<^verbatim>\<open>onload\<close> and \<^verbatim>\<open>onerror\<close>
  handlers and assigns the data URL to the image. A promise is settled once: a later
  \<^verbatim>\<open>resolve\<close> or \<^verbatim>\<open>reject\<close> has no effect.
\<close>

datatype settle = Pending | Resolved response | Rejected string

definition settle_with :: "settle \<Rightarrow> settle \<Rightarrow> settle" where
  "settle_with p v = (if p = Pending then v else p)"

text \<open>
  What the image element reports, with the time in milliseconds since the call: a load
  (natural width, width, natural height, height, and the outcome of drawing and
  \<^verbatim>\<open>canvas.toDataURL\<close>: the thrown error's message or the PNG data URL), or a load
  error.
\<close>

datatype img_event = ImgLoad nat nat nat nat "string + string" | ImgError

record relay_state =
  promise :: settle
  timer :: "nat option"
  canvas_width :: nat
  canvas_height :: nat
  canvas_drawn :: nat

definition decode_timeout_ms :: nat where
  "decode_timeout_ms = 10000"

definition relay_init :: "nat \<Rightarrow> nat \<Rightarrow> relay_state" where
  "relay_init cw ch =
     \<lparr>promise = Pending, timer = Some decode_timeout_ms,
      canvas_width = cw, canvas_height = ch, canvas_drawn = 0\<rparr>"

text \<open>The timer callback: \<^verbatim>\<open>reject(new Error('Image load timeout'))\<close>.\<close>

definition fire_timer :: "relay_state \<Rightarrow> relay_state" where
  "fire_timer s =
     s\<lparr>promise := settle_with (promise s) (Rejected ''Image load timeout''), timer := None\<rparr>"

text \<open>\<^verbatim>\<open>a || b\<close> on numbers: the first operand unless it is zero.\<close>

definition num_or :: "nat \<Rightarrow> nat \<Rightarrow> nat" where
  "num_or a b = (if a = 0 then b else a)"

text \<open>
  The \<^verbatim>\<open>onload\<close> and \<^verbatim>\<open>onerror\<close> handlers. Both clear the timer first;
  \<^verbatim>\<open>onload\<close> sizes the shared canvas, draws and re-encodes, whether or not the
  promise is still pending.
\<close>

fun on_img_event :: "img_event \<Rightarrow> relay_state \<Rightarrow> relay_state" where
  "on_img_event (ImgLoad nw w nh h enc) s =
     (let s1 = s\<lparr>timer := None, canvas_width := num_or nw w, canvas_height := num_or nh h,
                  canvas_drawn := Suc (canvas_drawn s)\<rparr>
      in case enc of
           Inr png \<Rightarrow> s1\<lparr>promise := settle_with (promise s1) (Resolved (Success png (length png)))\<rparr>
         | Inl err \<Rightarrow> s1\<lparr>promise := settle_with (promise s1) (Rejected err)\<rparr>)"
| "on_img_event ImgError s =
     s\<lparr>timer := None, promise := settle_with (promise s) (Rejected ''Failed to load image'')\<rparr>"

text \<open>
  The armed timer fires before an image event that comes later than its due time, and
  at the latest when nothing else happens any more. An image event at the due time
  itself is taken to come first.
\<close>

definition timer_before :: "nat \<Rightarrow> relay_state \<Rightarrow> relay_state" where
  "timer_before t s =
     (case timer s of None \<Rightarrow> s | Some due \<Rightarrow> if due < t then fire_timer s else s)"

fun relay_run :: "(nat \<times> img_event) list \<Rightarrow> relay_state \<Rightarrow> relay_state" where
  "relay_run [] s = (case timer s of None \<Rightarrow> s | Some due \<Rightarrow> fire_timer s)"
| "relay_run ((t, ev) # evs) s = relay_run evs (on_img_event ev (timer_before t s))"

text \<open>
  What \<^verbatim>\<open>handleImageData\<close> returns once the promise is settled: the resolved value,
  or \<^verbatim>\<open>{success: false, error: error.message}\<close> from the catch block. A promise that
  stays pending means that the function never returns (\<open>None\<close>).
\<close>

definition relay_outcome :: "relay_state \<Rightarrow> response option" where
  "relay_outcome s =
     (case promise s of
        Pending \<Rightarrow> None
      | Resolved r \<Rightarrow> Some r
      | Rejected msg \<Rightarrow> Some (Failure msg))"

definition handleImageData :: "(nat \<times> img_event) list \<Rightarrow> response option" where
  "handleImageData evs = relay_outcome (relay_run evs (relay_init 0 0))"

definition late_event :: "nat \<times> img_event \<Rightarrow> bool" where
  "late_event e = (decode_timeout_ms < fst e)"

section \<open>Overlay step (content.js, replaceTextInImage): the element's toggle state\<close>

text \<open>
  The part of an image element that the overlay step reads and writes: the displayed
  source, the three \<^verbatim>\<open>dataset\<close> entries (\<open>None\<close> when unset), cursor and title, and
  the number of click listeners that the overlay step has registered. Every registration
  adds a new closure with the same body, so the listeners are counted, not named.
\<close>

record element =
  el_src :: string
  ds_original :: "string option"
  ds_translated :: "string option"
  ds_showing :: "string option"
  style_cursor :: string
  el_title :: string
  click_listeners :: nat

text \<open>
  \<^verbatim>\<open>!element.dataset.original\<close> holds for an unset entry and for the empty string.
  Assigning an unset entry to \<^verbatim>\<open>src\<close> assigns the text \<^verbatim>\<open>undefined\<close>.
\<close>

definition js_falsy :: "string option \<Rightarrow> bool" where
  "js_falsy v = (v = None \<or> v = Some [])"

definition dataset_read :: "string option \<Rightarrow> string" where
  "dataset_read v = (case v of None \<Rightarrow> ''undefined'' | Some s \<Rightarrow> s)"

text \<open>The body of the click listener.\<close>

definition toggle :: "element \<Rightarrow> element" where
  "toggle el =
     (if ds_showing el = Some ''translated''
      then el\<lparr>el_src := dataset_read (ds_original el), ds_showing := Some ''original''\<rparr>
      else el\<lparr>el_src := dataset_read (ds_translated el), ds_showing := Some ''translated''\<rparr>)"

text \<open>
  The end of the \<^verbatim>\<open>onload\<close> handler of \<^verbatim>\<open>replaceTextInImage\<close>, with the rendered
  canvas (\<^verbatim>\<open>canvas.toDataURL('image/png')\<close>) as \<open>newImageData\<close>.
\<close>

definition overlay_dom :: "string \<Rightarrow> element \<Rightarrow> element" where
  "overlay_dom newImageData el =
     (let el1 = (if js_falsy (ds_original el)
                 then el\<lparr>ds_original := Some (el_src el), style_cursor := ''pointer'',
                         el_title := ''Click to toggle'',
                         click_listeners := Suc (click_listeners el)\<rparr>
                 else el)
      in el1\<lparr>ds_translated := Some newImageData, ds_showing := Some ''translated'',
              el_src := newImageData\<rparr>)"

text \<open>
  \<^verbatim>\<open>replaceTextInImage\<close>: nothing when the page is changing; otherwise the payload is
  decoded, and either its \<^verbatim>\<open>onload\<close> handler renders and updates the element
  (\<open>Some\<close> of the rendered image) or \<^verbatim>\<open>onerror\<close> resolves without a change.
\<close>

definition replaceTextInImage :: "bool \<Rightarrow> string option \<Rightarrow> element \<Rightarrow> element" where
  "replaceTextInImage pageChanging rendered el =
     (if pageChanging then el
      else case rendered of None \<Rightarrow> el | Some newImageData \<Rightarrow> overlay_dom newImageData el)"

text \<open>What happens to an element over time: overlay passes and clicks.\<close>

datatype dom_event = OverlayPass string | Click

fun dom_step :: "dom_event \<Rightarrow> element \<Rightarrow> element" where
  "dom_step (OverlayPass d) el = replaceTextInImage False (Some d) el"
| "dom_step Click el = (toggle ^^ click_listeners el) el"

fun dom_run :: "dom_event list \<Rightarrow> element \<Rightarrow> element" where
  "dom_run [] el = el"
| "dom_run (ev # evs) el = dom_run evs (dom_step ev el)"

text \<open>A fresh element as the page delivers it, with the given \<^verbatim>\<open>src\<close> property.\<close>

definition fresh_element :: "string \<Rightarrow> element" where
  "fresh_element src =
     \<lparr>el_src = src, ds_original = None, ds_translated = None, ds_showing = None,
      style_cursor = [], el_title = [], click_listeners = 0\<rparr>"

definition toggle_inv :: "string \<Rightarrow> element \<Rightarrow> bool" where
  "toggle_inv src0 el =
     (ds_original el = Some src0 \<and> click_listeners el = 1 \<and>
      (if ds_showing el = Some ''original'' then el_src el = src0
       else ds_showing el = Some ''translated''))"

section \<open>Content script (content.js): site-specific source resolution\<close>

text \<open>
  What the content script reads from an image element at one moment: the element's
  identity, its source properties and attributes (\<open>None\<close> for an absent attribute), the
  \<^verbatim>\<open>complete\<close> flag and its natural and layout dimensions.
\<close>

record img =
  hid :: nat
  img_currentSrc :: string
  img_src :: string
  img_dataSrc :: "string option"
  img_srcset :: "string option"
  img_complete :: bool
  naturalWidth :: nat
  naturalHeight :: nat
  img_width :: nat
  img_height :: nat

text \<open>
  The regular expressions of the content script, as matchers that try to match at the
  start of a string and return what follows the match. \<^verbatim>\<open>\d+\<close> is followed by a
  character that is no digit in each of them, so the greedy match is the only one.
\<close>

definition is_digit :: "char \<Rightarrow> bool" where
  "is_digit c = (c \<in> set ''0123456789'')"

text \<open>\<^verbatim>\<open>\d+\<close>: one or more digits.\<close>

definition match_digits :: "string \<Rightarrow> string option" where
  "match_digits s =
     (case s of
        [] \<Rightarrow> None
      | c # cs \<Rightarrow> if is_digit c then Some (dropWhile is_digit cs) else None)"

definition match_lit :: "string \<Rightarrow> string \<Rightarrow> string option" where
  "match_lit lit s = (if starts_with s lit then Some (drop (length lit) s) else None)"

text \<open>\<^verbatim>\<open>/\/c\/\d+x\d+[^\/]*\//\<close>\<close>

definition match_resize :: "string \<Rightarrow> string option" where
  "match_resize s =
     (case match_lit ''/c/'' s of None \<Rightarrow> None | Some s1 \<Rightarrow>
      case match_digits s1 of None \<Rightarrow> None | Some s2 \<Rightarrow>
      case match_lit ''x'' s2 of None \<Rightarrow> None | Some s3 \<Rightarrow>
      case match_digits s3 of None \<Rightarrow> None | Some s4 \<Rightarrow>
      match_lit ''/'' (dropWhile (\<lambda>c. c \<noteq> CHR ''/'') s4))"

text \<open>\<^verbatim>\<open>/_square\d+\./\<close> and \<^verbatim>\<open>/_custom\d+\./\<close>, with the tag as parameter.\<close>

definition match_variant :: "string \<Rightarrow> string \<Rightarrow> string option" where
  "match_variant tag s =
     (case match_lit tag s of None \<Rightarrow> None | Some s1 \<Rightarrow>
      case match_digits s1 of None \<Rightarrow> None | Some s2 \<Rightarrow>
      match_lit ''.'' s2)"

text \<open>
  \<^verbatim>\<open>s.replace(regex, rep)\<close> without the global flag: the leftmost match is
  replaced, and a string without a match is returned as it is.
\<close>

fun regex_replace :: "(string \<Rightarrow> string option) \<Rightarrow> string \<Rightarrow> string \<Rightarrow> string" where
  "regex_replace m rep [] = (case m [] of None \<Rightarrow> [] | Some rest \<Rightarrow> rep @ rest)"
| "regex_replace m rep (c # cs) =
     (case m (c # cs) of None \<Rightarrow> c # regex_replace m rep cs | Some rest \<Rightarrow> rep @ rest)"

text \<open>
  The derivation of the original-quality URL, the same in \<^verbatim>\<open>handlePixivImages\<close> and
  in \<^verbatim>\<open>handleNewImage\<close>.
\<close>

definition originalSrc :: "string \<Rightarrow> string" where
  "originalSrc src =
     (let o1 = (if includes_str src ''/c/'' then regex_replace match_resize ''/'' src else src);
          o2 = regex_replace (match_variant ''_square'') ''_master1200.'' o1
      in regex_replace (match_variant ''_custom'') ''_master1200.'' o2)"

text \<open>
  \<^verbatim>\<open>srcset.split(',').map(s => s.trim().split(' ')[0])\<close>: the candidates of a
  \<^verbatim>\<open>srcset\<close> attribute.
\<close>

fun split_on :: "char \<Rightarrow> string \<Rightarrow> string list" where
  "split_on d [] = [[]]"
| "split_on d (c # cs) =
     (case split_on d cs of
        [] \<Rightarrow> (if c = d then [[], []] else [[c]])
      | w # ws \<Rightarrow> (if c = d then [] # w # ws else (c # w) # ws))"

text \<open>
  \<^verbatim>\<open>String.prototype.trim\<close> strips the white space and line terminators of
  ECMAScript from both ends. In UTF-8 these are the bytes 0x09 to 0x0D and 0x20 and the
  encodings of U+00A0, U+1680, U+2000 to U+200A, U+2028, U+2029, U+202F, U+205F,
  U+3000 and U+FEFF.
\<close>

definition js_whitespace :: "string list" where
  "js_whitespace =
     [[CHR 0x09], [CHR 0x0A], [CHR 0x0B], [CHR 0x0C], [CHR 0x0D], [CHR 0x20],
      [CHR 0xC2, CHR 0xA0],
      [CHR 0xE1, CHR 0x9A, CHR 0x80],
      [CHR 0xE2, CHR 0x80, CHR 0x80], [CHR 0xE2, CHR 0x80, CHR 0x81],
      [CHR 0xE2, CHR 0x80, CHR 0x82], [CHR 0xE2, CHR 0x80, CHR 0x83],
      [CHR 0xE2, CHR 0x80, CHR 0x84], [CHR 0xE2, CHR 0x80, CHR 0x85],
      [CHR 0xE2, CHR 0x80, CHR 0x86], [CHR 0xE2, CHR 0x80, CHR 0x87],
      [CHR 0xE2, CHR 0x80, CHR 0x88], [CHR 0xE2, CHR 0x80, CHR 0x89],
      [CHR 0xE2, CHR 0x80, CHR 0x8A],
      [CHR 0xE2, CHR 0x80, CHR 0xA8], [CHR 0xE2, CHR 0x80, CHR 0xA9],
      [CHR 0xE2, CHR 0x80, CHR 0xAF],
      [CHR 0xE2, CHR 0x81, CHR 0x9F],
      [CHR 0xE3, CHR 0x80, CHR 0x80],
      [CHR 0xEF, CHR 0xBB, CHR 0xBF]]"

text \<open>
  \<open>drop_space tab s\<close> removes from the front of \<open>s\<close> every leading occurrence of
  an entry of \<open>tab\<close>. The end of a string is trimmed on the reversed string with the
  reversed encodings.
\<close>

fun drop_space :: "string list \<Rightarrow> string \<Rightarrow> string" where
  "drop_space tab [] = []"
| "drop_space tab (c # cs) =
     (case find (\<lambda>w. starts_with (c # cs) w) tab of
        None \<Rightarrow> c # cs
      | Some w \<Rightarrow> drop_space tab (drop (length w - 1) cs))"

definition trim :: "string \<Rightarrow> string" where
  "trim s = rev (drop_space (map rev js_whitespace) (rev (drop_space js_whitespace s)))"

definition srcset_sources :: "string \<Rightarrow> string list" where
  "srcset_sources srcset =
     map (\<lambda>s. takeWhile (\<lambda>c. c \<noteq> CHR '' '') (trim s)) (split_on CHR '','' srcset)"

text \<open>
  The source that the site-specific protocol settles on, or \<open>None\<close> when the element
  is skipped: \<^verbatim>\<open>img.currentSrc || img.src || img.getAttribute('data-src')\<close>, replaced
  by the last \<^verbatim>\<open>srcset\<close> candidate on the asset domain if there is one, and required
  to be non-empty and to name the asset domain.
\<close>

definition first_src :: "img \<Rightarrow> string option" where
  "first_src i =
     (if img_currentSrc i \<noteq> [] then Some (img_currentSrc i)
      else if img_src i \<noteq> [] then Some (img_src i)
      else img_dataSrc i)"

definition pixiv_source :: "img \<Rightarrow> string option" where
  "pixiv_source i =
     (let pixivSources =
            (case img_srcset i of
               None \<Rightarrow> []
             | Some srcset \<Rightarrow>
                 if srcset = [] then []
                 else filter (\<lambda>s. includes_str s ''pximg.net'') (srcset_sources srcset));
          src = (if pixivSources \<noteq> [] then Some (last pixivSources) else first_src i)
      in case src of
           None \<Rightarrow> None
         | Some u \<Rightarrow> if u = [] \<or> \<not> includes_str u ''pximg.net'' then None else Some u)"

section \<open>Content script: acquisition (extractImageData)\<close>

text \<open>
  The strategies that \<^verbatim>\<open>extractImageData\<close> can try, in the order in which it tried
  them: the offscreen message for a URL, a draw of the live element onto a local
  canvas, and the background fetch for a URL.
\<close>

datatype strategy = Offscreen string | DirectDraw | BackgroundFetch string

text \<open>
  The environment of one acquisition: the answer to the FETCH_IMAGE_OFFSCREEN message
  (\<open>None\<close> when \<^verbatim>\<open>sendMessage\<close> rejects or answers nothing), the outcome of the direct
  draw (\<open>None\<close> when \<^verbatim>\<open>drawImage\<close> or \<^verbatim>\<open>toDataURL\<close> throws, as on a tainted
  canvas), the answer to the FETCH_IMAGE message, and the outcome of decoding and
  redrawing the fetched data URL within its 10000 ms bound (\<open>None\<close> on timeout, load
  error or draw error).
\<close>

record acquire_env =
  offscreen_reply :: "message \<Rightarrow> response option"
  direct_draw :: "string option"
  background_reply :: "message \<Rightarrow> fetch_image_response option"
  redraw_fetched :: "string \<Rightarrow> string option"

text \<open>
  \<^verbatim>\<open>response && response.success && response.dataUrl\<close>: the data URL of a successful
  answer, when it is not empty.
\<close>

definition offscreen_payload :: "response option \<Rightarrow> string option" where
  "offscreen_payload r =
     (case r of Some (Success dataUrl n) \<Rightarrow> if dataUrl = [] then None else Some dataUrl | _ \<Rightarrow> None)"

definition background_payload :: "fetch_image_response option \<Rightarrow> string option" where
  "background_payload r =
     (case r of Some (FetchOk dataUrl n) \<Rightarrow> if dataUrl = [] then None else Some dataUrl | _ \<Rightarrow> None)"

text \<open>\<^verbatim>\<open>a || b\<close> on a dataset entry and a string.\<close>

definition opt_or :: "string option \<Rightarrow> string \<Rightarrow> string" where
  "opt_or a b = (case a of None \<Rightarrow> b | Some s \<Rightarrow> if s = [] then b else s)"

definition str_or :: "string \<Rightarrow> string \<Rightarrow> string" where
  "str_or a b = (if a = [] then b else a)"

text \<open>
  \<^verbatim>\<open>extractImageData\<close>, given the flag \<^verbatim>\<open>isPageChanging\<close> at the call, the page URI,
  the \<^verbatim>\<open>dataset.originalPixivSrc\<close> entry of the element and its snapshot. The result
  is the list of strategies tried and the payload, \<open>None\<close> for \<^verbatim>\<open>null\<close>.
\<close>

definition extractImageData ::
  "acquire_env \<Rightarrow> bool \<Rightarrow> string \<Rightarrow> string option \<Rightarrow> img \<Rightarrow> strategy list \<times> string option" where
  "extractImageData env pageChanging href recorded i =
     (if pageChanging then ([], None)
      else
        let src = opt_or recorded (str_or (img_currentSrc i) (img_src i));
            width = num_or (naturalWidth i) (img_width i);
            height = num_or (naturalHeight i) (img_height i)
        in
          if src = [] \<or> src = ''about:blank'' then ([], None)
          else if width < 200 \<or> height < 200 then ([], None)
          else if includes_str src ''pximg.net'' then
            (case offscreen_payload (offscreen_reply env \<lparr>msg_url = src, msg_referer = href\<rparr>) of
               Some dataUrl \<Rightarrow> ([Offscreen src], Some dataUrl)
             | None \<Rightarrow> ([Offscreen src, DirectDraw], direct_draw env))
          else
            (case direct_draw env of
               Some dataUrl \<Rightarrow> ([DirectDraw], Some dataUrl)
             | None \<Rightarrow>
                 (case background_payload (background_reply env \<lparr>msg_url = src, msg_referer = href\<rparr>) of
                    None \<Rightarrow> ([DirectDraw, BackgroundFetch src], None)
                  | Some fetched \<Rightarrow>
                      (case redraw_fetched env fetched of
                         None \<Rightarrow> ([DirectDraw, BackgroundFetch src], None)
                       | Some png \<Rightarrow>
                           if png = [] then ([DirectDraw, BackgroundFetch src], None)
                           else ([DirectDraw, BackgroundFetch src], Some png)))))"

section \<open>Content script: discovery, queue and navigation as a state machine\<close>

text \<open>
  JavaScript runs each piece of code between two suspension points without
  interruption. The page-instance state of content.js is a record; every synchronous
  segment (a callback, or the code between two \<^verbatim>\<open>await\<close>s) is one step on it, and
  the environment decides the order of the steps.

  A drain loop that is suspended in \<^verbatim>\<open>await processImage(element)\<close> is a worker: the
  element and the point at which \<^verbatim>\<open>processImage\<close> waits. \<open>Settled\<close> and \<open>Thrown\<close>
  are the two ways in which \<^verbatim>\<open>processImage\<close> has finished while the loop has not
  yet resumed.
\<close>

datatype phase = Extracting | OcrCall string | Overlaying string | Settled | Thrown

text \<open>
  The outcome of \<^verbatim>\<open>sendToOCRServer\<close>: \<^verbatim>\<open>null\<close> (transport error, abort after
  120000 ms, status not ok), a result without \<^verbatim>\<open>text_blocks\<close>, a result whose
  \<^verbatim>\<open>text_blocks\<close> cannot be mapped (the \<^verbatim>\<open>map\<close> call throws), or a result with
  its list of blocks.
\<close>

datatype ocr_result = OcrNull | OcrNoBlocks | OcrMalformed | OcrBlocks "string list"

text \<open>
  The state. \<open>waiting\<close> holds the \<^verbatim>\<open>handleNewImage\<close> calls that are suspended in the
  wait for the image to load, each with its element and, on the site-specific branch,
  the original-quality URL it has derived. \<open>enqueued\<close>, \<open>started\<close>, \<open>ocr_log\<close> and
  \<open>overlay_log\<close> are instrumentation: every \<^verbatim>\<open>processingQueue.push\<close>, every
  \<^verbatim>\<open>processingQueue.shift\<close> (followed by the call of \<^verbatim>\<open>processImage\<close>), every
  request sent to the OCR server and every overlay that was begun, in order.
\<close>

record page =
  isPixiv :: bool
  processedImages :: "nat set"
  failedImages :: "nat set"
  observedImages :: "nat set"
  processingQueue :: "nat list"
  isProcessing :: bool
  isPageChanging :: bool
  imageObserver_set :: bool
  observing :: bool
  originalPixivSrc :: "nat \<Rightarrow> string option"
  waiting :: "(nat \<times> string option) list"
  workers :: "(nat \<times> phase) list"
  enqueued :: "nat list"
  started :: "nat list"
  ocr_log :: "nat list"
  overlay_log :: "nat list"

definition empty_page :: "bool \<Rightarrow> page" where
  "empty_page px =
     \<lparr>isPixiv = px, processedImages = {}, failedImages = {}, observedImages = {},
      processingQueue = [], isProcessing = False, isPageChanging = False,
      imageObserver_set = False, observing = False, originalPixivSrc = (\<lambda>h. None),
      waiting = [], workers = [], enqueued = [], started = [], ocr_log = [],
      overlay_log = []\<rparr>"

subsection \<open>Admission\<close>

text \<open>The size tests of the two protocols.\<close>

definition passes_generic :: "img \<Rightarrow> bool" where
  "passes_generic i = (200 < naturalWidth i \<and> 200 < naturalHeight i)"

definition passes_pixiv :: "img \<Rightarrow> bool" where
  "passes_pixiv i =
     (200 < num_or (naturalWidth i) (img_width i) \<and> 200 < num_or (naturalHeight i) (img_height i))"

definition admit_generic :: "nat \<Rightarrow> page \<Rightarrow> page" where
  "admit_generic h s =
     s\<lparr>observedImages := insert h (observedImages s),
       processingQueue := processingQueue s @ [h],
       enqueued := enqueued s @ [h]\<rparr>"

definition admit_pixiv :: "nat \<Rightarrow> string \<Rightarrow> page \<Rightarrow> page" where
  "admit_pixiv h orig s =
     s\<lparr>observedImages := insert h (observedImages s),
       originalPixivSrc := (originalPixivSrc s)(h := Some orig),
       processingQueue := processingQueue s @ [h],
       enqueued := enqueued s @ [h]\<rparr>"

text \<open>
  The initial scans \<^verbatim>\<open>queueAllImages\<close> and \<^verbatim>\<open>handlePixivImages\<close> over the elements
  of \<^verbatim>\<open>document.querySelectorAll('img')\<close>. They run before the observers are
  installed and before the first \<^verbatim>\<open>processQueue\<close>, so nothing else touches the state
  while they wait for an image; each snapshot holds what the scan reads of its element.
\<close>

fun queueAllImages :: "img list \<Rightarrow> page \<Rightarrow> page" where
  "queueAllImages [] s = s"
| "queueAllImages (i # imgs) s =
     queueAllImages imgs (if passes_generic i then admit_generic (hid i) s else s)"

fun handlePixivImages :: "img list \<Rightarrow> page \<Rightarrow> page" where
  "handlePixivImages [] s = s"
| "handlePixivImages (i # imgs) s =
     handlePixivImages imgs
       (case pixiv_source i of
          None \<Rightarrow> s
        | Some src \<Rightarrow> if passes_pixiv i then admit_pixiv (hid i) (originalSrc src) s else s)"

subsection \<open>The drain loop and per-item processing\<close>

text \<open>
  The synchronous start of \<^verbatim>\<open>processImage(element)\<close>: the two guards, then the
  element enters the processed set and the acquisition is awaited.
\<close>

definition start_item :: "nat \<Rightarrow> page \<Rightarrow> page \<times> phase" where
  "start_item e s =
     (if isPageChanging s then (s, Settled)
      else if e \<in> processedImages s then (s, Settled)
      else (s\<lparr>processedImages := insert e (processedImages s)\<rparr>, Extracting))"

text \<open>
  One test of the \<^verbatim>\<open>while\<close> condition: either the head of the queue is shifted and
  \<^verbatim>\<open>processImage\<close> is called on it, or the loop ends and clears the worker flag.
\<close>

definition loop_iter :: "page \<Rightarrow> page \<times> (nat \<times> phase) option" where
  "loop_iter s =
     (case processingQueue s of
        [] \<Rightarrow> (s\<lparr>isProcessing := False\<rparr>, None)
      | e # q \<Rightarrow>
          if isPageChanging s then (s\<lparr>isProcessing := False\<rparr>, None)
          else
            let (s', ph) = start_item e (s\<lparr>processingQueue := q, started := started s @ [e]\<rparr>)
            in (s', Some (e, ph)))"

definition processQueue :: "page \<Rightarrow> page" where
  "processQueue s =
     (if isProcessing s \<or> processingQueue s = [] then s
      else
        let (s', w) = loop_iter (s\<lparr>isProcessing := True\<rparr>)
        in case w of None \<Rightarrow> s' | Some wk \<Rightarrow> s'\<lparr>workers := workers s' @ [wk]\<rparr>)"

definition remove_nth :: "nat \<Rightarrow> 'a list \<Rightarrow> 'a list" where
  "remove_nth k xs = take k xs @ drop (Suc k) xs"

definition set_phase :: "nat \<Rightarrow> phase \<Rightarrow> page \<Rightarrow> page" where
  "set_phase k ph s = s\<lparr>workers := (workers s)[k := (fst (workers s ! k), ph)]\<rparr>"

text \<open>
  The drain loop resumes after \<^verbatim>\<open>await processImage(element)\<close>: the catch block for
  a thrown error, the \<^verbatim>\<open>break\<close> on a page change, and the next test of the loop
  condition.
\<close>

definition resume_loop :: "nat \<Rightarrow> page \<Rightarrow> page" where
  "resume_loop k s =
     (if k < length (workers s) \<and> (snd (workers s ! k) = Settled \<or> snd (workers s ! k) = Thrown) then
        let e = fst (workers s ! k);
            s0 = (if snd (workers s ! k) = Thrown
                  then s\<lparr>failedImages := insert e (failedImages s)\<rparr> else s)
        in if isPageChanging s0
           then s0\<lparr>isProcessing := False, workers := remove_nth k (workers s0)\<rparr>
           else
             let (s', w) = loop_iter s0
             in case w of
                  None \<Rightarrow> s'\<lparr>workers := remove_nth k (workers s')\<rparr>
                | Some wk \<Rightarrow> s'\<lparr>workers := (workers s')[k := wk]\<rparr>
      else s)"

text \<open>
  \<^verbatim>\<open>processImage\<close> resumes with the acquired payload: \<^verbatim>\<open>null\<close> (or an empty
  string) marks the element failed unless the page is changing; otherwise the payload
  is sent to the OCR server.
\<close>

definition extract_done :: "nat \<Rightarrow> string option \<Rightarrow> page \<Rightarrow> page" where
  "extract_done k r s =
     (if k < length (workers s) then
        case workers s ! k of
          (e, Extracting) \<Rightarrow>
            (case r of
               None \<Rightarrow>
                 set_phase k Settled
                   (if isPageChanging s then s else s\<lparr>failedImages := insert e (failedImages s)\<rparr>)
             | Some imageData \<Rightarrow>
                 if imageData = [] \<or> isPageChanging s then
                   set_phase k Settled
                     (if isPageChanging s then s else s\<lparr>failedImages := insert e (failedImages s)\<rparr>)
                 else set_phase k (OcrCall imageData) (s\<lparr>ocr_log := ocr_log s @ [e]\<rparr>))
        | _ \<Rightarrow> s
      else s)"

text \<open>\<^verbatim>\<open>processImage\<close> resumes with the OCR result (chome-extention/content.js).\<close>

definition ocr_done :: "nat \<Rightarrow> ocr_result \<Rightarrow> page \<Rightarrow> page" where
  "ocr_done k res s =
     (if k < length (workers s) then
        case workers s ! k of
          (e, OcrCall p) \<Rightarrow>
            if isPageChanging s then set_phase k Settled s
            else (case res of
                    OcrNull \<Rightarrow> set_phase k Settled (s\<lparr>failedImages := insert e (failedImages s)\<rparr>)
                  | OcrNoBlocks \<Rightarrow> set_phase k Settled (s\<lparr>failedImages := insert e (failedImages s)\<rparr>)
                  | OcrMalformed \<Rightarrow> set_phase k Thrown s
                  | OcrBlocks bs \<Rightarrow>
                      if bs = [] then set_phase k Settled s
                      else set_phase k (Overlaying p) (s\<lparr>overlay_log := overlay_log s @ [e]\<rparr>))
        | _ \<Rightarrow> s
      else s)"

text \<open>
  The same continuation in the older content script (src/content.js), which tests
  \<^verbatim>\<open>!result || !result.text_blocks || result.text_blocks.length === 0\<close> in one
  condition and marks the element failed.
\<close>

definition ocr_done_legacy :: "nat \<Rightarrow> ocr_result \<Rightarrow> page \<Rightarrow> page" where
  "ocr_done_legacy k res s =
     (if k < length (workers s) then
        case workers s ! k of
          (e, OcrCall p) \<Rightarrow>
            if isPageChanging s then set_phase k Settled s
            else (case res of
                    OcrNull \<Rightarrow> set_phase k Settled (s\<lparr>failedImages := insert e (failedImages s)\<rparr>)
                  | OcrNoBlocks \<Rightarrow> set_phase k Settled (s\<lparr>failedImages := insert e (failedImages s)\<rparr>)
                  | OcrMalformed \<Rightarrow> set_phase k Thrown s
                  | OcrBlocks bs \<Rightarrow>
                      if bs = [] then set_phase k Settled (s\<lparr>failedImages := insert e (failedImages s)\<rparr>)
                      else set_phase k (Overlaying p) (s\<lparr>overlay_log := overlay_log s @ [e]\<rparr>))
        | _ \<Rightarrow> s
      else s)"

definition overlay_done :: "nat \<Rightarrow> page \<Rightarrow> page" where
  "overlay_done k s =
     (if k < length (workers s) then
        case workers s ! k of
          (e, Overlaying p) \<Rightarrow> set_phase k Settled s
        | _ \<Rightarrow> s
      else s)"

subsection \<open>Mutation-driven discovery\<close>

text \<open>
  \<^verbatim>\<open>handleNewImage\<close> up to its first suspension point. An element that is already
  observed or processed is skipped. An image that still loads suspends the call; the
  check of the observed set is not repeated when the call resumes.
\<close>

definition check_pixiv :: "img \<Rightarrow> string \<Rightarrow> page \<Rightarrow> page" where
  "check_pixiv i orig s =
     (if passes_pixiv i then processQueue (admit_pixiv (hid i) orig s) else s)"

definition check_generic :: "img \<Rightarrow> page \<Rightarrow> page" where
  "check_generic i s =
     (if passes_generic i then processQueue (admit_generic (hid i) s) else s)"

definition handleNewImage :: "img \<Rightarrow> page \<Rightarrow> page" where
  "handleNewImage i s =
     (if hid i \<in> observedImages s \<or> hid i \<in> processedImages s then s
      else if isPixiv s then
        (case pixiv_source i of
           None \<Rightarrow> s
         | Some src \<Rightarrow>
             if \<not> img_complete i \<or> naturalWidth i = 0
             then s\<lparr>waiting := waiting s @ [(hid i, Some (originalSrc src))]\<rparr>
             else check_pixiv i (originalSrc src) s)
      else if \<not> img_complete i then s\<lparr>waiting := waiting s @ [(hid i, None)]\<rparr>
      else check_generic i s)"

text \<open>
  The \<open>k\<close>-th suspended call resumes (the image has loaded, or its timer of 5000 or
  2000 ms has run out) and reads the dimensions of its element in the snapshot.
\<close>

definition load_settled :: "nat \<Rightarrow> img \<Rightarrow> page \<Rightarrow> page" where
  "load_settled k i s =
     (if k < length (waiting s) \<and> fst (waiting s ! k) = hid i then
        let s' = s\<lparr>waiting := remove_nth k (waiting s)\<rparr>
        in case snd (waiting s ! k) of
             Some orig \<Rightarrow> check_pixiv i orig s'
           | None \<Rightarrow> check_generic i s'
      else s)"

subsection \<open>Navigation\<close>

text \<open>
  The three handlers of \<^verbatim>\<open>setupPageChangeDetection\<close>: the mutation callback that
  finds a changed \<^verbatim>\<open>location.href\<close>, \<^verbatim>\<open>beforeunload\<close> and \<^verbatim>\<open>popstate\<close>.
\<close>

definition url_changed :: "page \<Rightarrow> page" where
  "url_changed s =
     s\<lparr>isPageChanging := True, processingQueue := [],
       observing := (if imageObserver_set s then False else observing s),
       imageObserver_set := False\<rparr>"

definition page_leaving :: "page \<Rightarrow> page" where
  "page_leaving s =
     s\<lparr>isPageChanging := True, processingQueue := [],
       observing := (if imageObserver_set s then False else observing s)\<rparr>"

subsection \<open>Runs\<close>

datatype event =
    Observe img
  | LoadSettled nat img
  | ExtractDone nat "string option"
  | OcrDone nat ocr_result
  | OverlayDone nat
  | Continue nat
  | UrlChange
  | Unload
  | Popstate

text \<open>
  The mutation callback of \<^verbatim>\<open>setupImageObserver\<close> runs only while the observer is
  connected.
\<close>

fun step :: "event \<Rightarrow> page \<Rightarrow> page" where
  "step (Observe i) s = (if observing s then handleNewImage i s else s)"
| "step (LoadSettled k i) s = load_settled k i s"
| "step (ExtractDone k r) s = extract_done k r s"
| "step (OcrDone k res) s = ocr_done k res s"
| "step (OverlayDone k) s = overlay_done k s"
| "step (Continue k) s = resume_loop k s"
| "step UrlChange s = url_changed s"
| "step Unload s = page_leaving s"
| "step Popstate s = page_leaving s"

fun run :: "event list \<Rightarrow> page \<Rightarrow> page" where
  "run [] s = s"
| "run (ev # evs) s = run evs (step ev s)"

text \<open>
  \<^verbatim>\<open>init\<close>: the scan chosen by the host name, then \<^verbatim>\<open>setupImageObserver\<close>,
  \<^verbatim>\<open>setupPageChangeDetection\<close> and the first \<^verbatim>\<open>processQueue\<close>.
\<close>

definition init :: "bool \<Rightarrow> img list \<Rightarrow> page" where
  "init px imgs =
     (let s = (if px then handlePixivImages imgs (empty_page px)
               else queueAllImages imgs (empty_page px))
      in processQueue (s\<lparr>imageObserver_set := True, observing := True\<rparr>))"

text \<open>The navigation events.\<close>

definition is_trip :: "event \<Rightarrow> bool" where
  "is_trip ev = (ev = UrlChange \<or> ev = Unload \<or> ev = Popstate)"

subsection \<open>Invariant of the drain loop\<close>

text \<open>
  At most one drain loop is active, the worker flag says whether one is, what has been
  pushed is what has been shifted followed by what is still queued (until a navigation
  clears the queue), and a connected observer is stored in \<^verbatim>\<open>imageObserver\<close>.
\<close>

definition drain_inv :: "page \<Rightarrow> bool" where
  "drain_inv s =
     (length (workers s) \<le> 1 \<and>
      isProcessing s = (workers s \<noteq> []) \<and>
      (isPageChanging s \<or> enqueued s = started s @ processingQueue s) \<and>
      take (length (started s)) (enqueued s) = started s \<and>
      (imageObserver_set s \<or> \<not> observing s))"

definition finished :: "nat \<times> phase \<Rightarrow> bool" where
  "finished w = (snd w = Settled \<or> snd w = Thrown)"

definition ocr_in_flight :: "nat \<times> phase \<Rightarrow> bool" where
  "ocr_in_flight w = (case snd w of OcrCall p \<Rightarrow> True | _ \<Rightarrow> False)"

text \<open>
  Once the page is changing, no step shifts an element, sends an OCR request or begins
  an overlay, the flag stays set and a disconnected observer stays disconnected.
\<close>

definition wound_down :: "page \<Rightarrow> page \<Rightarrow> bool" where
  "wound_down s s' =
     (isPageChanging s' \<and> started s' = started s \<and> ocr_log s' = ocr_log s \<and>
      overlay_log s' = overlay_log s \<and> observing s' = observing s)"

subsection \<open>Admissions after a navigation\<close>

text \<open>
  The elements of the \<^verbatim>\<open>handleNewImage\<close> calls that are suspended in their load wait.
\<close>

definition awaited :: "page \<Rightarrow> nat set" where
  "awaited s = fst ` set (waiting s)"

text \<open>
  Compared with the state \<open>s0\<close>, the state \<open>s\<close> has observed, pushed and queued no
  element outside the set \<open>P\<close>, and awaits none outside it.
\<close>

definition admits_within :: "nat set \<Rightarrow> page \<Rightarrow> page \<Rightarrow> bool" where
  "admits_within P s0 s =
     (observedImages s \<subseteq> observedImages s0 \<union> P \<and>
      set (enqueued s) \<subseteq> set (enqueued s0) \<union> P \<and>
      set (processingQueue s) \<subseteq> set (processingQueue s0) \<union> P \<and>
      awaited s \<subseteq> P)"

subsection \<open>Sample elements\<close>

text \<open>
  Snapshots used to run the model: two loaded images of 300 by 400 and 640 by 480
  pixels, an image that is still loading and the same image once loaded, and a loaded
  image of 150 by 150 pixels.
\<close>

definition sample_img :: "nat \<Rightarrow> string \<Rightarrow> bool \<Rightarrow> nat \<Rightarrow> nat \<Rightarrow> img" where
  "sample_img h u c w ht =
     \<lparr>hid = h, img_currentSrc = u, img_src = u, img_dataSrc = None, img_srcset = None,
      img_complete = c, naturalWidth = w, naturalHeight = ht, img_width = w, img_height = ht\<rparr>"

definition img_a :: img where
  "img_a = sample_img 1 ''https://example.org/a.png'' True 300 400"

definition img_b :: img where
  "img_b = sample_img 2 ''https://example.org/b.png'' True 640 480"

definition img_c_loading :: img where
  "img_c_loading = sample_img 3 ''https://example.org/c.png'' False 0 0"

definition img_c :: img where
  "img_c = sample_img 3 ''https://example.org/c.png'' True 500 500"

definition img_small :: img where
  "img_small = sample_img 4 ''https://example.org/icon.png'' True 150 150"

subsection \<open>The size floor\<close>

text \<open>
  The dimensions that a protocol compares with the floor of 200: the generic protocol
  compares the natural dimensions, the site-specific one
  \<^verbatim>\<open>img.naturalWidth || img.width\<close> and \<^verbatim>\<open>img.naturalHeight || img.height\<close>, the
  layout dimension standing in for a natural dimension of zero.
\<close>

definition floor_width :: "bool \<Rightarrow> img \<Rightarrow> nat" where
  "floor_width px i = (if px then num_or (naturalWidth i) (img_width i) else naturalWidth i)"

definition floor_height :: "bool \<Rightarrow> img \<Rightarrow> nat" where
  "floor_height px i = (if px then num_or (naturalHeight i) (img_height i) else naturalHeight i)"

definition below_floor :: "bool \<Rightarrow> img \<Rightarrow> bool" where
  "below_floor px i = (floor_width px i \<le> 200 \<or> floor_height px i \<le> 200)"

text \<open>The snapshot that an event carries, if any.\<close>

fun event_img :: "event \<Rightarrow> img option" where
  "event_img (Observe i) = Some i"
| "event_img (LoadSettled k i) = Some i"
| "event_img ev = None"

definition other_or_small :: "bool \<Rightarrow> nat \<Rightarrow> img \<Rightarrow> bool" where
  "other_or_small px h i = (hid i \<noteq> h \<or> below_floor px i)"

text \<open>
  Element \<open>h\<close> is below the floor whenever the initial scan or a discovery event reads
  its dimensions.
\<close>

definition small_throughout :: "bool \<Rightarrow> nat \<Rightarrow> img list \<Rightarrow> event list \<Rightarrow> bool" where
  "small_throughout px h imgs evs =
     (list_all (other_or_small px h) imgs \<and>
      list_all (\<lambda>ev. case event_img ev of None \<Rightarrow> True | Some i \<Rightarrow> other_or_small px h i) evs)"

definition not_admitted :: "bool \<Rightarrow> nat \<Rightarrow> page \<Rightarrow> bool" where
  "not_admitted px h s =
     (h \<notin> observedImages s \<and> h \<notin> set (enqueued s) \<and> h \<notin> set (processingQueue s) \<and>
      isPixiv s = px \<and> list_all (\<lambda>w. (snd w \<noteq> None) = px) (waiting s))"

text \<open>
  An image on the asset domain that has not loaded when the site-specific scan gives
  up waiting (natural dimensions zero) and whose layout box is 300 by 300.
\<close>

definition img_unloaded :: img where
  "img_unloaded =
     \<lparr>hid = 5, img_currentSrc = ''https://i.pximg.net/img-master/img/2024/01/02/03/04/05/1_p0_master1200.jpg'',
      img_src = ''https://i.pximg.net/img-master/img/2024/01/02/03/04/05/1_p0_master1200.jpg'',
      img_dataSrc = None, img_srcset = None, img_complete = False,
      naturalWidth = 0, naturalHeight = 0, img_width = 300, img_height = 300\<rparr>"

definition img_small_px :: img where
  "img_small_px = sample_img 6 ''https://i.pximg.net/img-master/img/2024/01/02/03/04/05/2_p0_master1200.jpg'' True 150 150"

subsection \<open>Degraded-variant sources\<close>

text \<open>
  \<open>unmatched m p rest\<close>: in the string \<open>p @ rest\<close> the pattern \<open>m\<close> matches at no
  position inside \<open>p\<close>.
\<close>

fun unmatched :: "(string \<Rightarrow> string option) \<Rightarrow> string \<Rightarrow> string \<Rightarrow> bool" where
  "unmatched m [] rest = True"
| "unmatched m (c # cs) rest = (m (c # cs @ rest) = None \<and> unmatched m cs rest)"

text \<open>
  A resize-proxy segment \<^verbatim>\<open>/c/<W>x<H><options>\<close>, without the slash that ends it, or
  no segment at all.
\<close>

definition resize_segment :: "string \<Rightarrow> bool" where
  "resize_segment seg =
     (seg = [] \<or>
      (starts_with seg ''/c/'' \<and>
       (let wh = drop 3 seg; w = takeWhile is_digit wh; r = dropWhile is_digit wh
        in w \<noteq> [] \<and> starts_with r ''x'' \<and> takeWhile is_digit (drop 1 r) \<noteq> [] \<and>
           CHR ''/'' \<notin> set (drop 1 r))))"

text \<open>
  A source on the hostile host whose file name carries a degraded-variant suffix, in
  its parts: \<open>a\<close> up to the resize-proxy segment (it names the asset domain), the
  segment \<open>seg\<close> (or nothing), the path \<open>b\<close> up to the suffix, the suffix
  \<open>tag\<close>, \<open>ds\<close>, dot, and the extension \<open>ext\<close>. The resize-proxy segment and the
  suffix are the first places in the URI where their patterns match, and the URI has no
  suffix of the other kind.
\<close>

definition degraded_url :: "string \<Rightarrow> string \<Rightarrow> string \<Rightarrow> string \<Rightarrow> string \<Rightarrow> string \<Rightarrow> bool" where
  "degraded_url a seg b tag ds ext =
     (includes_str a ''pximg.net'' \<and>
      resize_segment seg \<and> starts_with b ''/'' \<and>
      unmatched match_resize a (seg @ b @ tag @ ds @ ''.'' @ ext) \<and>
      (seg \<noteq> [] \<or> unmatched match_resize (b @ tag @ ds @ ''.'' @ ext) []) \<and>
      ds \<noteq> [] \<and> list_all is_digit ds \<and>
      unmatched (match_variant tag) (a @ b) (tag @ ds @ ''.'' @ ext) \<and>
      ((tag = ''_square'' \<and> unmatched (match_variant ''_custom'') (a @ b @ ''_master1200.'' @ ext) []) \<or>
       (tag = ''_custom'' \<and> unmatched (match_variant ''_square'') (a @ b @ tag @ ds @ ''.'' @ ext) [])))"

text \<open>The image of the spec's scenario, offered through \<^verbatim>\<open>srcset\<close> in two sizes.\<close>

definition img_sample :: img where
  "img_sample =
     \<lparr>hid = 7,
      img_currentSrc = ''https://i.pximg.net/c/250x250_80_a2/img-original/img/2024/01/02/03/04/05/sample_p0_square1200.jpg'',
      img_src = ''https://i.pximg.net/c/250x250_80_a2/img-original/img/2024/01/02/03/04/05/sample_p0_square1200.jpg'',
      img_dataSrc = None,
      img_srcset = Some ''https://i.pximg.net/c/250x250_80_a2/img-original/img/2024/01/02/03/04/05/sample_p0_square1200.jpg 1x, https://i.pximg.net/c/540x540_70/img-original/img/2024/01/02/03/04/05/sample_p0_square1200.jpg 2x'',
      img_complete = True, naturalWidth = 540, naturalHeight = 540,
      img_width = 250, img_height = 250\<rparr>"

text \<open>
  The element \<open>h\<close> is in the observed set and its \<^verbatim>\<open>dataset.originalPixivSrc\<close> is
  \<open>u\<close>.
\<close>

definition recorded :: "nat \<Rightarrow> string \<Rightarrow> page \<Rightarrow> bool" where
  "recorded h u s = (h \<in> observedImages s \<and> originalPixivSrc s h = Some u)"

text \<open>
  Every suspended discovery call for the element \<open>h\<close> carries the URL \<open>u\<close>, and
  if \<open>h\<close> is observed, its \<^verbatim>\<open>dataset.originalPixivSrc\<close> is \<open>u\<close>.
\<close>

definition carried :: "nat \<Rightarrow> string \<Rightarrow> page \<Rightarrow> bool" where
  "carried h u s =
     (list_all (\<lambda>w. fst w \<noteq> h \<or> snd w = Some u) (waiting s) \<and>
      (h \<notin> observedImages s \<or> originalPixivSrc s h = Some u))"

text \<open>
  The event is no mutation callback for the element of \<open>i\<close> in which the element
  resolves to another source than in \<open>i\<close>.
\<close>

definition same_source :: "img \<Rightarrow> event \<Rightarrow> bool" where
  "same_source i ev =
     (case ev of Observe j \<Rightarrow> hid j \<noteq> hid i \<or> pixiv_source j = pixiv_source i | _ \<Rightarrow> True)"

text \<open>
  A loaded image whose source has the pattern of the \<^verbatim>\<open>_custom\<close> suffix in a
  directory name and again in the file name.
\<close>

definition img_custom_dir :: img where
  "img_custom_dir =
     \<lparr>hid = 8,
      img_currentSrc = ''https://i.pximg.net/user_custom1.d/img/1_p0_custom1200.jpg'',
      img_src = ''https://i.pximg.net/user_custom1.d/img/1_p0_custom1200.jpg'',
      img_dataSrc = None, img_srcset = None,
      img_complete = True, naturalWidth = 600, naturalHeight = 600,
      img_width = 600, img_height = 600\<rparr>"

subsection \<open>Invariant of per-item processing\<close>

text \<open>
  An element that is in flight (acquisition, OCR call or overlay) is in the processed
  set and not in the failed set; failed elements and elements sent to the OCR server
  are processed elements; no element is sent to the OCR server twice.
\<close>

definition in_flight :: "phase \<Rightarrow> bool" where
  "in_flight ph = (case ph of Extracting \<Rightarrow> True | OcrCall p \<Rightarrow> True | Overlaying p \<Rightarrow> True | _ \<Rightarrow> False)"

definition worker_ok :: "page \<Rightarrow> nat \<times> phase \<Rightarrow> bool" where
  "worker_ok s w =
     ((snd w = Settled \<or> fst w \<in> processedImages s) \<and>
      (\<not> in_flight (snd w) \<or> fst w \<notin> failedImages s) \<and>
      (snd w \<noteq> Extracting \<or> fst w \<notin> set (ocr_log s)))"

definition flight_inv :: "page \<Rightarrow> bool" where
  "flight_inv s =
     (failedImages s \<subseteq> processedImages s \<and> set (ocr_log s) \<subseteq> processedImages s \<and>
      distinct (ocr_log s) \<and> list_all (worker_ok s) (workers s))"

section \<open>Background service worker: additions\<close>

text \<open>The blob that one answer of the network yields to a guarded attempt.\<close>

definition blob_of :: "fetch_result \<Rightarrow> blob option" where
  "blob_of r = (case r of NetworkError \<Rightarrow> None | Response ok st body \<Rightarrow> if ok then body else None)"

text \<open>
  The older background script (the FETCH_IMAGE handler that precedes the offscreen
  relay) builds the request as \<^verbatim>\<open>fetch(message.url, { headers })\<close> with
  \<^verbatim>\<open>headers.Referer = message.referer || message.url\<close>, replaced by the fixed value
  for a URL on the asset domain. It passes no \<^verbatim>\<open>credentials\<close> option, so the
  default applies.
\<close>

definition mk_request_legacy :: "message \<Rightarrow> request" where
  "mk_request_legacy m =
     \<lparr>req_url = msg_url m, req_method = ''GET'', req_mode = ''cors'',
      req_credentials = SameOrigin, req_cache = ''default'',
      req_referrer =
        Some (if includes_str (msg_url m) ''pximg.net'' then ''https://www.pixiv.net/''
              else str_or (msg_referer m) (msg_url m))\<rparr>"

chapter \<open>Verification\<close>

section \<open>Background service worker\<close>

lemma try_fetch_log: "fst (try_fetch net log url) = log @ [mk_request url]"
  by (simp add: try_fetch_def Let_def split: fetch_result.splits)

text \<open>
  The attempts are made in the order original, JPG sibling, PNG sibling: the request log
  is always an initial segment of that list, and without the lossy-format segment only
  the original URL is requested.
\<close>

lemma fetch_attempts_order:
  "map req_url (fst (fetch_attempts net url)) \<in>
     {[url], [url, jpg_variant url], [url, jpg_variant url, png_variant url]}"
  by (simp add: fetch_attempts_def try_fetch_def Let_def mk_request_def
      split: fetch_result.splits prod.splits)

lemma fetch_attempts_no_webp:
  "\<not> includes_str url ''_webp/'' \<Longrightarrow> map req_url (fst (fetch_attempts net url)) = [url]"
  by (simp add: fetch_attempts_def try_fetch_def Let_def mk_request_def
      split: fetch_result.splits prod.splits)

text \<open>
  When the original URL is refused or unreachable and the URL has the lossy-format
  segment, the JPG sibling is requested second.
\<close>

lemma fetch_attempts_jpg_second:
  assumes "includes_str url ''_webp/''"
    and "net 0 (mk_request url) = NetworkError \<or> (\<exists>st b. net 0 (mk_request url) = Response False st b)"
  shows "take 2 (map req_url (fst (fetch_attempts net url))) = [url, jpg_variant url]"
  using assms
  by (auto simp add: fetch_attempts_def try_fetch_def Let_def mk_request_def
      split: fetch_result.splits prod.splits)

text \<open>
  Claim C1. The claim says that whenever the first fetch does not yield non-empty bytes
  the JPG sibling and then the PNG sibling are tried, and that the operation fails only
  if all three attempts are empty or erroring. The handler guards the retries with
  \<^verbatim>\<open>!imageBlob\<close>, which an empty blob does not satisfy, and rejects the empty blob
  only afterwards: with a 200 answer of zero bytes for the original URL, the single
  request made is the original one and the handler answers "Failed to fetch image from
  all URLs", although both siblings would have delivered bytes.
\<close>

theorem fetch_offscreen_empty_primary_skips_fallback:
  "fetch_image_offscreen net_empty_primary (\<lambda>b. Some ''data:image/jpeg;base64,AQID'')
     (\<lambda>d. Success d 3) webp_message =
   ([mk_request ''https://i.pximg.net/img_webp/a.webp''],
    Failure ''Failed to fetch image from all URLs'')"
  by (simp add: fetch_image_offscreen_def fetch_attempts_def try_fetch_def
      net_empty_primary_def webp_message_def mk_request_def Let_def)

text \<open>
  The same defect one step later: an empty 200 answer for the JPG sibling ends the chain
  before the PNG sibling is requested.
\<close>

lemma fetch_offscreen_empty_jpg_skips_png:
  "fetch_image_offscreen net_empty_jpg (\<lambda>b. Some ''data:image/jpeg;base64,AQID'')
     (\<lambda>d. Success d 3) webp_message =
   ([mk_request ''https://i.pximg.net/img_webp/a.webp'', mk_request ''https://i.pximg.net/img/a.jpg''],
    Failure ''Failed to fetch image from all URLs'')"
  by (simp add: fetch_image_offscreen_def fetch_attempts_def try_fetch_def jpg_variant_def
      net_empty_jpg_def webp_message_def mk_request_def Let_def)

lemma fetch_image_offscreen_log:
  "fst (fetch_image_offscreen net reader relay m) = fst (fetch_attempts net (msg_url m))"
  by (simp add: fetch_image_offscreen_def split: prod.splits option.splits)

lemma fetch_attempts_requests:
  "rq \<in> set (fst (fetch_attempts net url)) \<Longrightarrow>
     rq \<in> {mk_request url, mk_request (jpg_variant url), mk_request (png_variant url)}"
  by (auto simp add: fetch_attempts_def try_fetch_def Let_def
      split: fetch_result.splits prod.splits if_splits)

lemma fetch_image_requests:
  "fst (fetch_image net reader m) = [mk_request (msg_url m)]"
  by (simp add: fetch_image_def Let_def split: fetch_result.splits option.splits)

text \<open>
  Claim C7. Every request that the FETCH_IMAGE and FETCH_IMAGE_OFFSCREEN handlers issue
  omits credentials, and once the declarative rules have been applied a request for a
  URL on the hostile host carries the fixed referrer \<^verbatim>\<open>https://www.pixiv.net/\<close>,
  whatever page URI the message named as referer.
\<close>

theorem fetch_requests_omit_credentials_fixed_referrer:
  "\<forall>rq \<in> set (fst (fetch_image_offscreen net reader relay m)) \<union> set (fst (fetch_image net' reader' m')).
     req_credentials (apply_rules rq) = Omit \<and>
     (includes_str (req_url rq) ''pximg.net'' \<longrightarrow>
        req_referrer (apply_rules rq) = Some ''https://www.pixiv.net/'')"
proof
  fix rq
  assume "rq \<in> set (fst (fetch_image_offscreen net reader relay m)) \<union> set (fst (fetch_image net' reader' m'))"
  then have "rq \<in> {mk_request (msg_url m), mk_request (jpg_variant (msg_url m)),
                     mk_request (png_variant (msg_url m)), mk_request (msg_url m')}"
    using fetch_attempts_requests [of rq net "msg_url m"]
    by (auto simp add: fetch_image_offscreen_log fetch_image_requests)
  then have "req_credentials rq = Omit"
    by (auto simp add: mk_request_def)
  then show "req_credentials (apply_rules rq) = Omit \<and>
     (includes_str (req_url rq) ''pximg.net'' \<longrightarrow>
        req_referrer (apply_rules rq) = Some ''https://www.pixiv.net/'')"
    by (simp add: apply_rules_def pixiv_referrer_def)
qed

theorem fetch_requests_omit_credentials_fixed_referrer_witness:
  "map (\<lambda>rq. (req_credentials (apply_rules rq), req_referrer (apply_rules rq)))
     (fst (fetch_image_offscreen net_empty_jpg (\<lambda>b. None) (\<lambda>d. Failure []) webp_message)) =
   [(Omit, Some ''https://www.pixiv.net/''), (Omit, Some ''https://www.pixiv.net/'')]"
proof -
  let ?log = "fst (fetch_image_offscreen net_empty_jpg (\<lambda>b. None) (\<lambda>d. Failure []) webp_message)"
  have log: "?log = [mk_request ''https://i.pximg.net/img_webp/a.webp'',
                     mk_request ''https://i.pximg.net/img/a.jpg'']"
    by (simp add: fetch_image_offscreen_def fetch_attempts_def try_fetch_def jpg_variant_def
        net_empty_jpg_def webp_message_def mk_request_def Let_def)
  have "\<forall>rq \<in> set ?log \<union> set (fst (fetch_image net_empty_jpg (\<lambda>b. None) webp_message)).
     req_credentials (apply_rules rq) = Omit \<and>
     (includes_str (req_url rq) ''pximg.net'' \<longrightarrow>
        req_referrer (apply_rules rq) = Some ''https://www.pixiv.net/'')"
    by (rule fetch_requests_omit_credentials_fixed_referrer)
  then show ?thesis
    unfolding log by (simp add: mk_request_def)
qed

section \<open>Offscreen document: decode timeout\<close>

lemma settle_with_settled: "p \<noteq> Pending \<Longrightarrow> settle_with p v = p"
  by (simp add: settle_with_def)

lemma on_img_event_settled:
  "promise s \<noteq> Pending \<Longrightarrow> promise (on_img_event ev s) = promise s"
  by (cases ev) (auto simp add: settle_with_def Let_def split: sum.splits)

lemma fire_timer_settled:
  "promise s \<noteq> Pending \<Longrightarrow> promise (fire_timer s) = promise s"
  by (simp add: fire_timer_def settle_with_def)

lemma timer_before_settled:
  "promise s \<noteq> Pending \<Longrightarrow> promise (timer_before t s) = promise s"
  by (simp add: timer_before_def fire_timer_settled split: option.splits)

text \<open>Once settled, the promise keeps its value through every later event.\<close>

lemma relay_run_settled:
  "promise s \<noteq> Pending \<Longrightarrow> promise (relay_run evs s) = promise s"
proof (induction evs arbitrary: s)
  case Nil
  then show ?case by (simp add: fire_timer_settled split: option.splits)
next
  case (Cons e evs)
  obtain t ev where e: "e = (t, ev)" by (cases e)
  have "promise (on_img_event ev (timer_before t s)) = promise s"
    using Cons.prems by (simp add: on_img_event_settled timer_before_settled)
  then show ?case
    using Cons.IH [of "on_img_event ev (timer_before t s)"] Cons.prems e by simp
qed

text \<open>The function always returns: at the latest the timer settles the promise.\<close>

lemma on_img_event_settles: "promise (on_img_event ev s) \<noteq> Pending"
  by (cases ev) (auto simp add: settle_with_def Let_def split: sum.splits)

lemma relay_run_returns: "timer s \<noteq> None \<or> promise s \<noteq> Pending \<Longrightarrow> promise (relay_run evs s) \<noteq> Pending"
proof (induction evs arbitrary: s)
  case Nil
  then show ?case by (auto simp add: fire_timer_def settle_with_def split: option.splits)
next
  case (Cons e evs)
  obtain t ev where e: "e = (t, ev)" by (cases e)
  show ?case
    using Cons.IH [of "on_img_event ev (timer_before t s)"] e
    by (simp add: on_img_event_settles)
qed

lemma handleImageData_returns: "\<exists>r. handleImageData evs = Some r"
proof -
  have "promise (relay_run evs (relay_init 0 0)) \<noteq> Pending"
    by (rule relay_run_returns) (simp add: relay_init_def)
  then show ?thesis
    by (cases "promise (relay_run evs (relay_init 0 0))")
       (simp_all add: handleImageData_def relay_outcome_def)
qed

lemma relay_run_late:
  assumes "timer s = Some decode_timeout_ms" and "promise s = Pending"
    and "list_all late_event evs"
  shows "promise (relay_run evs s) = Rejected ''Image load timeout''"
proof (cases evs)
  case Nil
  with assms show ?thesis by (simp add: fire_timer_def settle_with_def)
next
  case (Cons e rest)
  obtain t ev where e: "e = (t, ev)" by (cases e)
  have late: "decode_timeout_ms < t"
    using assms(3) Cons e by (simp add: late_event_def)
  have fired: "promise (timer_before t s) = Rejected ''Image load timeout''"
    using assms(1,2) late by (simp add: timer_before_def fire_timer_def settle_with_def)
  then have "promise (on_img_event ev (timer_before t s)) = Rejected ''Image load timeout''"
    by (simp add: on_img_event_settled)
  then show ?thesis
    using Cons e relay_run_settled [of "on_img_event ev (timer_before t s)" rest] by simp
qed

text \<open>
  Claim C8. When the decode does not complete within the 10000 ms timeout (every load
  or error event of the image comes later than that, or none comes at all), the
  re-encode request returns the timeout failure, and the late callbacks, however many
  and whatever they carry, leave that returned outcome as it is.
\<close>

theorem handleImageData_decode_timeout:
  assumes "list_all late_event evs"
  shows "handleImageData evs = Some (Failure ''Image load timeout'') \<and>
         (\<forall>more. relay_outcome (relay_run more (relay_run evs (relay_init 0 0))) =
                   Some (Failure ''Image load timeout''))"
proof -
  have init: "timer (relay_init 0 0) = Some decode_timeout_ms" "promise (relay_init 0 0) = Pending"
    by (simp_all add: relay_init_def)
  have first: "promise (relay_run evs (relay_init 0 0)) = Rejected ''Image load timeout''"
    using init assms by (rule relay_run_late)
  then have "promise (relay_run more (relay_run evs (relay_init 0 0))) = Rejected ''Image load timeout''"
    for more
    using relay_run_settled [of "relay_run evs (relay_init 0 0)" more] by simp
  with first show ?thesis
    by (simp add: handleImageData_def relay_outcome_def)
qed

theorem handleImageData_decode_timeout_witness:
  "list_all late_event [(10001, ImgLoad 800 800 600 600 (Inr ''data:image/png;base64,AA''))] \<and>
   handleImageData [(10001, ImgLoad 800 800 600 600 (Inr ''data:image/png;base64,AA''))] =
     Some (Failure ''Image load timeout'') \<and>
   handleImageData [(10000, ImgLoad 800 800 600 600 (Inr ''data:image/png;base64,AA''))] =
     Some (Success ''data:image/png;base64,AA'' 24)"
proof -
  have late: "list_all late_event [(10001, ImgLoad 800 800 600 600 (Inr ''data:image/png;base64,AA''))]"
    by (simp add: late_event_def decode_timeout_ms_def)
  have early: "handleImageData [(10000, ImgLoad 800 800 600 600 (Inr ''data:image/png;base64,AA''))] =
     Some (Success ''data:image/png;base64,AA'' 24)"
    by (simp add: handleImageData_def relay_outcome_def relay_init_def timer_before_def
        decode_timeout_ms_def settle_with_def Let_def)
  show ?thesis
    using late early handleImageData_decode_timeout [OF late] by simp
qed

section \<open>Overlay step: the toggle state\<close>


lemma overlay_dom_later:
  "\<not> js_falsy (ds_original el) \<Longrightarrow>
     overlay_dom d el = el\<lparr>ds_translated := Some d, ds_showing := Some ''translated'', el_src := d\<rparr>"
  by (simp add: overlay_dom_def Let_def)

lemma toggle_inv_not_falsy: "src0 \<noteq> [] \<Longrightarrow> toggle_inv src0 el \<Longrightarrow> \<not> js_falsy (ds_original el)"
  by (simp add: toggle_inv_def js_falsy_def)

lemma click_single: "click_listeners el = 1 \<Longrightarrow> dom_step Click el = toggle el"
  by simp

lemma toggle_inv_toggle: "toggle_inv src0 el \<Longrightarrow> toggle_inv src0 (toggle el)"
  by (cases "ds_showing el = Some ''translated''")
     (simp_all add: toggle_inv_def toggle_def dataset_read_def)

lemma dom_step_inv:
  assumes "src0 \<noteq> []" and inv: "toggle_inv src0 el"
  shows "toggle_inv src0 (dom_step ev el)"
proof (cases ev)
  case (OverlayPass d)
  have nf: "\<not> js_falsy (ds_original el)" using assms by (rule toggle_inv_not_falsy)
  have "dom_step ev el = el\<lparr>ds_translated := Some d, ds_showing := Some ''translated'', el_src := d\<rparr>"
    using OverlayPass nf by (simp add: replaceTextInImage_def overlay_dom_later)
  then show ?thesis
    using inv by (simp add: toggle_inv_def)
next
  case Click
  have "click_listeners el = 1" using inv by (simp add: toggle_inv_def)
  then have "dom_step ev el = toggle el" using Click click_single by simp
  then show ?thesis using inv by (simp add: toggle_inv_toggle)
qed


lemma overlay_dom_first:
  "js_falsy (ds_original el) \<Longrightarrow> click_listeners el = 0 \<Longrightarrow> el_src el \<noteq> [] \<Longrightarrow>
     toggle_inv (el_src el) (overlay_dom d el)"
  by (simp add: overlay_dom_def toggle_inv_def Let_def)

lemma dom_run_inv:
  "src0 \<noteq> [] \<Longrightarrow> toggle_inv src0 el \<Longrightarrow> toggle_inv src0 (dom_run evs el)"
  by (induction evs arbitrary: el) (simp_all add: dom_step_inv)

lemma first_overlay_inv:
  assumes "js_falsy (ds_original el0)" and "click_listeners el0 = 0" and "el_src el0 \<noteq> []"
  shows "toggle_inv (el_src el0) (dom_run evs (overlay_dom d el0))"
proof -
  have "toggle_inv (el_src el0) (overlay_dom d el0)"
    using assms by (rule overlay_dom_first)
  then show ?thesis
    using assms(3) by (rule dom_run_inv [rotated])
qed

lemma toggle_inv_click:
  assumes "toggle_inv src0 el" and "ds_showing el = Some ''translated''"
  shows "el_src (dom_step Click el) = src0 \<and> ds_showing (dom_step Click el) = Some ''original''"
proof -
  have "click_listeners el = 1" using assms(1) by (simp add: toggle_inv_def)
  then have "dom_step Click el = toggle el" by (rule click_single)
  moreover have "ds_original el = Some src0" using assms(1) by (simp add: toggle_inv_def)
  ultimately show ?thesis
    using assms(2) by (simp add: toggle_def dataset_read_def)
qed

lemma toggle_inv_shown:
  assumes "toggle_inv src0 el" and "ds_showing el \<noteq> Some ''translated''"
  shows "el_src el = src0"
proof (cases "ds_showing el = Some ''original''")
  case True
  with assms(1) show ?thesis by (simp add: toggle_inv_def)
next
  case False
  with assms show ?thesis by (simp add: toggle_inv_def)
qed

text \<open>
  What the guard does achieve. For an element that has no \<^verbatim>\<open>dataset.original\<close> (or
  an empty one) and no listener of the overlay step, and whose \<^verbatim>\<open>src\<close> property is
  not empty: after its first pass and any later passes and clicks, \<^verbatim>\<open>dataset.original\<close>
  is the source of before the first pass, exactly one click listener is registered, a
  further pass changes \<^verbatim>\<open>dataset.translated\<close>, \<^verbatim>\<open>dataset.showing\<close> and the
  displayed source only, and a click while the translation is shown displays the source
  of before the first pass.
\<close>

lemma first_overlay_toggle_once:
  assumes "js_falsy (ds_original el0)" and "click_listeners el0 = 0" and "el_src el0 \<noteq> []"
  shows "let el = dom_run evs (overlay_dom d el0) in
           ds_original el = Some (el_src el0) \<and> click_listeners el = 1 \<and>
           dom_step (OverlayPass d') el =
             el\<lparr>ds_translated := Some d', ds_showing := Some ''translated'', el_src := d'\<rparr> \<and>
           (if ds_showing el = Some ''translated''
            then el_src (dom_step Click el) = el_src el0 \<and>
                 ds_showing (dom_step Click el) = Some ''original''
            else el_src el = el_src el0)"
proof -
  define el where "el = dom_run evs (overlay_dom d el0)"
  have inv: "toggle_inv (el_src el0) el"
    unfolding el_def using assms by (rule first_overlay_inv)
  have orig: "ds_original el = Some (el_src el0)" and one: "click_listeners el = 1"
    using inv by (simp_all add: toggle_inv_def)
  have nf: "\<not> js_falsy (ds_original el)"
    using assms(3) inv by (rule toggle_inv_not_falsy)
  have later: "dom_step (OverlayPass d') el =
      el\<lparr>ds_translated := Some d', ds_showing := Some ''translated'', el_src := d'\<rparr>"
    using nf by (simp add: replaceTextInImage_def overlay_dom_later)
  have toggled: "if ds_showing el = Some ''translated''
            then el_src (dom_step Click el) = el_src el0 \<and>
                 ds_showing (dom_step Click el) = Some ''original''
            else el_src el = el_src el0"
  proof (cases "ds_showing el = Some ''translated''")
    case True
    with toggle_inv_click [OF inv True] show ?thesis by simp
  next
    case False
    with toggle_inv_shown [OF inv False] show ?thesis by simp
  qed
  from orig one later toggled show ?thesis
    unfolding Let_def el_def by (intro conjI)
qed

text \<open>
  Claim C10. The guard \<^verbatim>\<open>!element.dataset.original\<close> does not tell an element that
  has had its first overlay from one that has not, so the claim does not hold of the
  code.

  An element without a \<^verbatim>\<open>src\<close> attribute, whose source comes from \<^verbatim>\<open>srcset\<close>,
  has the empty string as its \<^verbatim>\<open>src\<close> property. Its first pass records the empty
  string, which the guard of the second pass takes for unset: the second pass registers
  a second listener and overwrites \<^verbatim>\<open>dataset.original\<close> with the first
  translation, and a click then runs both listeners and leaves the second translation
  displayed.

  An element that the page delivers with a \<^verbatim>\<open>data-original\<close> attribute of its own,
  as lazy-loading scripts do, gets no record of its source and no listener at all: after
  its overlay a click changes nothing, and the source of before the overlay is kept
  nowhere.
\<close>

theorem overlay_guard_misjudges_first_overlay:
  "click_listeners (dom_run [OverlayPass ''data:1''] (fresh_element [])) = Suc 0 \<and>
   ds_original (dom_run [OverlayPass ''data:1''] (fresh_element [])) = Some [] \<and>
   click_listeners (dom_run [OverlayPass ''data:1'', OverlayPass ''data:2''] (fresh_element [])) = Suc (Suc 0) \<and>
   ds_original (dom_run [OverlayPass ''data:1'', OverlayPass ''data:2''] (fresh_element [])) = Some ''data:1'' \<and>
   el_src (dom_run [OverlayPass ''data:1'', OverlayPass ''data:2'', Click] (fresh_element [])) = ''data:2'' \<and>
   click_listeners (dom_run [OverlayPass ''data:1'']
      ((fresh_element ''https://example.org/a.png'')\<lparr>ds_original := Some ''https://example.org/full.png''\<rparr>)) = 0 \<and>
   ds_original (dom_run [OverlayPass ''data:1'']
      ((fresh_element ''https://example.org/a.png'')\<lparr>ds_original := Some ''https://example.org/full.png''\<rparr>)) =
     Some ''https://example.org/full.png'' \<and>
   el_src (dom_run [OverlayPass ''data:1'', Click]
      ((fresh_element ''https://example.org/a.png'')\<lparr>ds_original := Some ''https://example.org/full.png''\<rparr>)) =
     ''data:1''"
  by (simp add: overlay_dom_def fresh_element_def js_falsy_def replaceTextInImage_def toggle_def
      dataset_read_def Let_def)

section \<open>Drain loop\<close>


lemma start_item_fields:
  "start_item e s = (s', ph) \<Longrightarrow>
     workers s' = workers s \<and> isProcessing s' = isProcessing s \<and> isPageChanging s' = isPageChanging s \<and>
     enqueued s' = enqueued s \<and> started s' = started s \<and> processingQueue s' = processingQueue s \<and>
     imageObserver_set s' = imageObserver_set s \<and> observing s' = observing s"
  by (auto simp add: start_item_def split: if_splits)

lemma loop_iter_None:
  "loop_iter s = (s', None) \<Longrightarrow> s' = s\<lparr>isProcessing := False\<rparr>"
  by (auto simp add: loop_iter_def split: list.splits if_splits prod.splits)

lemma loop_iter_Some:
  "loop_iter s = (s', Some w) \<Longrightarrow>
     \<not> isPageChanging s \<and> processingQueue s = fst w # processingQueue s' \<and>
     started s' = started s @ [fst w] \<and> workers s' = workers s \<and>
     isProcessing s' = isProcessing s \<and> isPageChanging s' = isPageChanging s \<and>
     enqueued s' = enqueued s \<and> imageObserver_set s' = imageObserver_set s \<and> observing s' = observing s"
  by (auto simp add: loop_iter_def split: list.splits if_splits prod.splits dest!: start_item_fields)

lemma take_started:
  "take (length st) enq = st \<Longrightarrow> enq = st @ e # q \<Longrightarrow> take (Suc (length st)) enq = st @ [e]"
  by simp

lemma processQueue_inv: "drain_inv s \<Longrightarrow> drain_inv (processQueue s)"
proof -
  assume inv: "drain_inv s"
  show ?thesis
  proof (cases "isProcessing s \<or> processingQueue s = []")
    case True
    then show ?thesis using inv by (simp add: processQueue_def)
  next
    case False
    then have idle: "workers s = []" using inv by (simp add: drain_inv_def)
    obtain s' w where li: "loop_iter (s\<lparr>isProcessing := True\<rparr>) = (s', w)"
      by (cases "loop_iter (s\<lparr>isProcessing := True\<rparr>)")
    show ?thesis
    proof (cases w)
      case None
      then have "s' = s\<lparr>isProcessing := False\<rparr>"
        using li loop_iter_None [of "s\<lparr>isProcessing := True\<rparr>" s'] by simp
      then have "processQueue s = s\<lparr>isProcessing := False\<rparr>"
        using False li None by (simp add: processQueue_def)
      then show ?thesis using inv idle by (simp add: drain_inv_def)
    next
      case (Some wk)
      have f: "\<not> isPageChanging s \<and> processingQueue s = fst wk # processingQueue s' \<and>
          started s' = started s @ [fst wk] \<and> workers s' = [] \<and> isProcessing s' \<and>
          isPageChanging s' = isPageChanging s \<and> enqueued s' = enqueued s \<and>
          imageObserver_set s' = imageObserver_set s \<and> observing s' = observing s"
        using loop_iter_Some [of "s\<lparr>isProcessing := True\<rparr>" s' wk] li Some idle by simp
      have pq: "processQueue s = s'\<lparr>workers := workers s' @ [wk]\<rparr>"
        using False li Some by (simp add: processQueue_def)
      show ?thesis
        unfolding pq using inv f by (auto simp add: drain_inv_def)
    qed
  qed
qed


lemma take_prefix_iff: "take (length st) enq = st \<longleftrightarrow> (\<exists>r. enq = st @ r)"
proof
  assume "take (length st) enq = st"
  then have "enq = st @ drop (length st) enq"
    by (metis append_take_drop_id)
  then show "\<exists>r. enq = st @ r" ..
next
  assume "\<exists>r. enq = st @ r"
  then show "take (length st) enq = st" by auto
qed

lemma take_prefix_len: "take (length st) enq = st \<Longrightarrow> length st \<le> length enq"
  unfolding take_prefix_iff by auto

lemma admit_generic_inv: "drain_inv s \<Longrightarrow> drain_inv (admit_generic h s)"
  by (auto simp add: drain_inv_def admit_generic_def dest: take_prefix_len)

lemma admit_pixiv_inv: "drain_inv s \<Longrightarrow> drain_inv (admit_pixiv h orig s)"
  by (auto simp add: drain_inv_def admit_pixiv_def dest: take_prefix_len)

lemma check_generic_inv: "drain_inv s \<Longrightarrow> drain_inv (check_generic i s)"
  by (simp add: check_generic_def processQueue_inv admit_generic_inv)

lemma check_pixiv_inv: "drain_inv s \<Longrightarrow> drain_inv (check_pixiv i orig s)"
  by (simp add: check_pixiv_def processQueue_inv admit_pixiv_inv)

lemma waiting_update_inv: "drain_inv s \<Longrightarrow> drain_inv (s\<lparr>waiting := w\<rparr>)"
  by (simp add: drain_inv_def)

lemma handleNewImage_inv: "drain_inv s \<Longrightarrow> drain_inv (handleNewImage i s)"
  by (simp add: handleNewImage_def check_generic_inv check_pixiv_inv waiting_update_inv
      split: option.splits)

lemma load_settled_inv: "drain_inv s \<Longrightarrow> drain_inv (load_settled k i s)"
  by (simp add: load_settled_def Let_def check_generic_inv check_pixiv_inv waiting_update_inv
      split: option.splits)

lemma set_phase_inv: "drain_inv s \<Longrightarrow> k < length (workers s) \<Longrightarrow> drain_inv (set_phase k ph s)"
  by (auto simp add: drain_inv_def set_phase_def)

lemma failed_update_inv: "drain_inv s \<Longrightarrow> drain_inv (s\<lparr>failedImages := f\<rparr>)"
  by (simp add: drain_inv_def)

lemma ocr_log_update_inv: "drain_inv s \<Longrightarrow> drain_inv (s\<lparr>ocr_log := l\<rparr>)"
  by (simp add: drain_inv_def)

lemma overlay_log_update_inv: "drain_inv s \<Longrightarrow> drain_inv (s\<lparr>overlay_log := l\<rparr>)"
  by (simp add: drain_inv_def)

lemma extract_done_inv: "drain_inv s \<Longrightarrow> drain_inv (extract_done k r s)"
  by (simp add: extract_done_def set_phase_inv failed_update_inv ocr_log_update_inv
      split: prod.splits phase.splits option.splits)

lemma ocr_done_inv: "drain_inv s \<Longrightarrow> drain_inv (ocr_done k res s)"
  by (simp add: ocr_done_def set_phase_inv failed_update_inv overlay_log_update_inv
      split: prod.splits phase.splits ocr_result.splits)

lemma overlay_done_inv: "drain_inv s \<Longrightarrow> drain_inv (overlay_done k s)"
  by (simp add: overlay_done_def set_phase_inv split: prod.splits phase.splits)

lemma url_changed_inv: "drain_inv s \<Longrightarrow> drain_inv (url_changed s)"
  by (auto simp add: drain_inv_def url_changed_def)

lemma page_leaving_inv: "drain_inv s \<Longrightarrow> drain_inv (page_leaving s)"
  by (auto simp add: drain_inv_def page_leaving_def)

lemma single_worker: "length ws \<le> 1 \<Longrightarrow> k < length ws \<Longrightarrow> k = 0 \<and> ws = [ws ! 0]"
  by (cases ws) auto

lemma resume_loop_inv: "drain_inv s \<Longrightarrow> drain_inv (resume_loop k s)"
proof -
  assume inv: "drain_inv s"
  show ?thesis
  proof (cases "k < length (workers s) \<and> (snd (workers s ! k) = Settled \<or> snd (workers s ! k) = Thrown)")
    case False
    then have "resume_loop k s = s" by (auto simp add: resume_loop_def)
    then show ?thesis using inv by simp
  next
    case True
    then have k0: "k = 0" and one: "workers s = [workers s ! 0]"
      using inv single_worker [of "workers s" k] by (simp_all add: drain_inv_def)
    define s0 where "s0 = (if snd (workers s ! k) = Thrown
        then s\<lparr>failedImages := insert (fst (workers s ! k)) (failedImages s)\<rparr> else s)"
    have inv0: "drain_inv s0" and w0: "workers s0 = workers s"
      using inv by (simp_all add: s0_def failed_update_inv)
    have rl: "resume_loop k s =
        (if isPageChanging s0 then s0\<lparr>isProcessing := False, workers := remove_nth k (workers s0)\<rparr>
         else let (s', w) = loop_iter s0
              in case w of None \<Rightarrow> s'\<lparr>workers := remove_nth k (workers s')\<rparr>
                         | Some wk \<Rightarrow> s'\<lparr>workers := (workers s')[k := wk]\<rparr>)"
      using True by (simp add: resume_loop_def s0_def Let_def)
    have rem: "remove_nth k (workers s0) = []"
      using k0 one w0 by (metis append_Nil drop_Suc_Cons drop0 remove_nth_def take0)
    show ?thesis
    proof (cases "isPageChanging s0")
      case True
      then show ?thesis
        unfolding rl using inv0 rem by (simp add: drain_inv_def)
    next
      case False
      obtain s' w where li: "loop_iter s0 = (s', w)" by (cases "loop_iter s0")
      show ?thesis
      proof (cases w)
        case None
        then have "s' = s0\<lparr>isProcessing := False\<rparr>"
          using li loop_iter_None by simp
        then show ?thesis
          unfolding rl using False li None inv0 rem by (simp add: drain_inv_def)
      next
        case (Some wk)
        have f: "processingQueue s0 = fst wk # processingQueue s' \<and>
          started s' = started s0 @ [fst wk] \<and> workers s' = workers s0 \<and>
          isProcessing s' = isProcessing s0 \<and> isPageChanging s' = isPageChanging s0 \<and>
          enqueued s' = enqueued s0 \<and> imageObserver_set s' = imageObserver_set s0 \<and>
          observing s' = observing s0"
          using loop_iter_Some [of s0 s' wk] li Some by simp
        have ws: "(workers s')[k := wk] = [wk]"
          using f k0 one w0 by (metis list_update_code(2))
        show ?thesis
          unfolding rl using False li Some inv0 f ws by (auto simp add: drain_inv_def)
      qed
    qed
  qed
qed

lemma step_inv: "drain_inv s \<Longrightarrow> drain_inv (step ev s)"
  by (cases ev)
     (simp_all add: handleNewImage_inv load_settled_inv extract_done_inv ocr_done_inv
        overlay_done_inv resume_loop_inv url_changed_inv page_leaving_inv)

lemma run_inv: "drain_inv s \<Longrightarrow> drain_inv (run evs s)"
  by (induction evs arbitrary: s) (simp_all add: step_inv)

lemma queueAllImages_inv: "drain_inv s \<Longrightarrow> drain_inv (queueAllImages imgs s)"
  by (induction imgs arbitrary: s) (simp_all add: admit_generic_inv)

lemma handlePixivImages_inv: "drain_inv s \<Longrightarrow> drain_inv (handlePixivImages imgs s)"
  by (induction imgs arbitrary: s) (simp_all add: admit_pixiv_inv split: option.splits)

lemma observer_setup_inv:
  "drain_inv s \<Longrightarrow> drain_inv (s\<lparr>imageObserver_set := True, observing := True\<rparr>)"
  by (simp add: drain_inv_def)

lemma init_inv: "drain_inv (init px imgs)"
proof -
  have "drain_inv (empty_page px)"
    by (simp add: drain_inv_def empty_page_def)
  then show ?thesis
    by (cases px)
       (simp_all add: init_def Let_def processQueue_inv observer_setup_inv
          queueAllImages_inv handlePixivImages_inv)
qed

lemma reachable_inv: "drain_inv (run evs (init px imgs))"
  by (rule run_inv) (rule init_inv)

text \<open>What the steps do to the list of shifted elements.\<close>

lemma processQueue_started:
  "drain_inv s \<Longrightarrow> started (processQueue s) \<noteq> started s \<Longrightarrow> workers s = []"
  by (cases "isProcessing s \<or> processingQueue s = []") (auto simp add: processQueue_def drain_inv_def)

lemma check_generic_started:
  "drain_inv s \<Longrightarrow> started (check_generic i s) \<noteq> started s \<Longrightarrow> workers s = []"
  using processQueue_started [of "admit_generic (hid i) s"] admit_generic_inv [of s "hid i"]
  by (auto simp add: check_generic_def admit_generic_def split: if_splits)

lemma check_pixiv_started:
  "drain_inv s \<Longrightarrow> started (check_pixiv i orig s) \<noteq> started s \<Longrightarrow> workers s = []"
  using processQueue_started [of "admit_pixiv (hid i) orig s"] admit_pixiv_inv [of s "hid i" orig]
  by (auto simp add: check_pixiv_def admit_pixiv_def split: if_splits)

lemma handleNewImage_started:
  "drain_inv s \<Longrightarrow> started (handleNewImage i s) \<noteq> started s \<Longrightarrow> workers s = []"
  by (auto simp add: handleNewImage_def split: if_splits option.splits
      dest: check_generic_started check_pixiv_started)

lemma load_settled_started:
  assumes "drain_inv s" and "started (load_settled k i s) \<noteq> started s"
  shows "workers s = []"
proof -
  let ?s = "s\<lparr>waiting := remove_nth k (waiting s)\<rparr>"
  have inv: "drain_inv ?s" using assms(1) by (rule waiting_update_inv)
  have "started (check_generic i ?s) \<noteq> started ?s \<or> started (check_pixiv i (the (snd (waiting s ! k))) ?s) \<noteq> started ?s"
    using assms(2) by (auto simp add: load_settled_def Let_def split: if_splits option.splits)
  then have "workers ?s = []"
    using inv check_generic_started check_pixiv_started by blast
  then show ?thesis by simp
qed

lemma set_phase_started: "started (set_phase k ph s) = started s"
  by (simp add: set_phase_def)

lemma extract_done_started: "started (extract_done k r s) = started s"
  by (simp add: extract_done_def set_phase_started split: prod.splits phase.splits option.splits)

lemma ocr_done_started: "started (ocr_done k res s) = started s"
  by (simp add: ocr_done_def set_phase_started split: prod.splits phase.splits ocr_result.splits)

lemma overlay_done_started: "started (overlay_done k s) = started s"
  by (simp add: overlay_done_def set_phase_started split: prod.splits phase.splits)

lemma resume_loop_started:
  assumes "drain_inv s" and "started (resume_loop k s) \<noteq> started s"
  shows "list_all finished (workers s)"
proof -
  have c: "k < length (workers s) \<and> (snd (workers s ! k) = Settled \<or> snd (workers s ! k) = Thrown)"
    using assms(2) by (auto simp add: resume_loop_def split: if_splits)
  then have k0: "k = 0" and one: "workers s = [workers s ! 0]"
    using assms(1) single_worker [of "workers s" k] by (simp_all add: drain_inv_def)
  have "finished (workers s ! 0)"
    using c k0 by (simp add: finished_def)
  then have "list_all finished [workers s ! 0]" by simp
  then show ?thesis
    using one by simp
qed

lemma step_started:
  assumes "drain_inv s" and "started (step ev s) \<noteq> started s"
  shows "list_all finished (workers s)"
proof (cases ev)
  case (Observe i)
  then have "workers s = []"
    using assms handleNewImage_started [of s i] by (auto split: if_splits)
  then show ?thesis by simp
next
  case (LoadSettled k i)
  then have "workers s = []"
    using assms load_settled_started [of s k i] by simp
  then show ?thesis by simp
next
  case (Continue k)
  then show ?thesis using assms resume_loop_started [of s k] by simp
qed (use assms in \<open>simp_all add: extract_done_started ocr_done_started overlay_done_started
      url_changed_def page_leaving_def\<close>)

lemma single_ocr_in_flight: "length ws \<le> 1 \<Longrightarrow> length (filter ocr_in_flight ws) \<le> 1"
  by (rule order_trans [OF length_filter_le])

text \<open>
  Claim C4. In every state that the content script can reach, at most one drain loop
  is active and the worker flag is set exactly while it is; hence at most one OCR
  request is in flight. The elements are shifted in the order in which they were
  pushed: the shifted ones are an initial segment of the pushed ones, and until a
  navigation clears the queue the pushed elements are the shifted ones followed by the
  queue. Whenever a step shifts the next element, the acquisition, OCR call and overlay
  of the previous one have ended.
\<close>

theorem drain_strictly_sequential:
  "let s = run evs (init px imgs) in
     length (workers s) \<le> 1 \<and> isProcessing s = (workers s \<noteq> []) \<and>
     length (filter ocr_in_flight (workers s)) \<le> 1 \<and>
     take (length (started s)) (enqueued s) = started s \<and>
     (isPageChanging s \<or> enqueued s = started s @ processingQueue s) \<and>
     (\<forall>ev. started (step ev s) = started s \<or> list_all finished (workers s))"
proof -
  define s where "s = run evs (init px imgs)"
  have inv: "drain_inv s"
    unfolding s_def by (rule reachable_inv)
  have one: "length (workers s) \<le> 1" using inv by (simp add: drain_inv_def)
  have "\<forall>ev. started (step ev s) = started s \<or> list_all finished (workers s)"
    using inv step_started by blast
  then show ?thesis
    unfolding Let_def s_def [symmetric]
    using inv single_ocr_in_flight [OF one] by (simp add: drain_inv_def)
qed

section \<open>Navigation\<close>

lemma trip_effect:
  assumes "is_trip t" and "drain_inv s"
  shows "isPageChanging (step t s) \<and> processingQueue (step t s) = [] \<and> \<not> observing (step t s) \<and>
         workers (step t s) = workers s \<and> started (step t s) = started s \<and>
         ocr_log (step t s) = ocr_log s \<and> overlay_log (step t s) = overlay_log s"
  using assms by (auto simp add: is_trip_def url_changed_def page_leaving_def drain_inv_def split: if_splits)

lemma processQueue_changing: "isPageChanging s \<Longrightarrow> wound_down s (processQueue s)"
  by (auto simp add: wound_down_def processQueue_def loop_iter_def split: list.splits)

lemma wound_down_trans: "wound_down s s' \<Longrightarrow> wound_down s' s'' \<Longrightarrow> wound_down s s''"
  by (simp add: wound_down_def)

lemma check_generic_changing: "isPageChanging s \<Longrightarrow> wound_down s (check_generic i s)"
  using processQueue_changing [of "admit_generic (hid i) s"]
  by (simp add: check_generic_def wound_down_def admit_generic_def)

lemma check_pixiv_changing: "isPageChanging s \<Longrightarrow> wound_down s (check_pixiv i orig s)"
  using processQueue_changing [of "admit_pixiv (hid i) orig s"]
  by (simp add: check_pixiv_def wound_down_def admit_pixiv_def)

lemma handleNewImage_changing: "isPageChanging s \<Longrightarrow> wound_down s (handleNewImage i s)"
  using check_generic_changing [of s i] check_pixiv_changing [of s i]
  by (auto simp add: handleNewImage_def wound_down_def split: option.splits)

lemma load_settled_changing: "isPageChanging s \<Longrightarrow> wound_down s (load_settled k i s)"
  using check_generic_changing [of "s\<lparr>waiting := remove_nth k (waiting s)\<rparr>" i]
    check_pixiv_changing [of "s\<lparr>waiting := remove_nth k (waiting s)\<rparr>" i]
  by (auto simp add: load_settled_def wound_down_def Let_def split: option.splits)

lemma extract_done_changing: "isPageChanging s \<Longrightarrow> wound_down s (extract_done k r s)"
  by (simp add: extract_done_def wound_down_def set_phase_def
      split: prod.splits phase.splits option.splits)

lemma ocr_done_changing: "isPageChanging s \<Longrightarrow> wound_down s (ocr_done k res s)"
  by (simp add: ocr_done_def wound_down_def set_phase_def split: prod.splits phase.splits)

lemma overlay_done_changing: "isPageChanging s \<Longrightarrow> wound_down s (overlay_done k s)"
  by (simp add: overlay_done_def wound_down_def set_phase_def split: prod.splits phase.splits)

lemma resume_loop_changing: "isPageChanging s \<Longrightarrow> wound_down s (resume_loop k s)"
  by (simp add: resume_loop_def wound_down_def Let_def)

lemma step_changing:
  assumes "isPageChanging s" and "\<not> observing s"
  shows "wound_down s (step ev s)"
proof (cases ev)
  case (Observe i)
  then show ?thesis using assms by (simp add: wound_down_def)
next
  case (LoadSettled k i)
  then show ?thesis using assms by (simp add: load_settled_changing)
next
  case (ExtractDone k r)
  then show ?thesis using assms by (simp add: extract_done_changing)
next
  case (OcrDone k res)
  then show ?thesis using assms by (simp add: ocr_done_changing)
next
  case (OverlayDone k)
  then show ?thesis using assms by (simp add: overlay_done_changing)
next
  case (Continue k)
  then show ?thesis using assms by (simp add: resume_loop_changing)
next
  case UrlChange
  then show ?thesis using assms by (simp add: wound_down_def url_changed_def)
next
  case Unload
  then show ?thesis using assms by (simp add: wound_down_def page_leaving_def)
next
  case Popstate
  then show ?thesis using assms by (simp add: wound_down_def page_leaving_def)
qed

lemma run_changing:
  "isPageChanging s \<Longrightarrow> \<not> observing s \<Longrightarrow> wound_down s (run evs s)"
proof (induction evs arbitrary: s)
  case Nil
  then show ?case by (simp add: wound_down_def)
next
  case (Cons ev evs)
  have a: "wound_down s (step ev s)" using Cons.prems by (rule step_changing)
  then have "isPageChanging (step ev s)" and "\<not> observing (step ev s)"
    using Cons.prems by (simp_all add: wound_down_def)
  then have "wound_down (step ev s) (run evs (step ev s))" by (rule Cons.IH)
  with a show ?case using wound_down_trans by simp
qed

text \<open>
  The element in flight at the navigation is not aborted: when the operation it waits
  for completes, \<^verbatim>\<open>processImage\<close> returns, and the loop ends when it resumes.
\<close>

lemma finish_after_trip:
  assumes "isPageChanging s" and "drain_inv s"
  shows "workers (run [ExtractDone 0 r, OcrDone 0 res, OverlayDone 0, Continue 0] s) = [] \<and>
         \<not> isProcessing (run [ExtractDone 0 r, OcrDone 0 res, OverlayDone 0, Continue 0] s)"
proof (cases "workers s")
  case Nil
  then show ?thesis
    using assms
    by (cases r)
       (simp_all add: extract_done_def ocr_done_def overlay_done_def resume_loop_def drain_inv_def)
next
  case (Cons w ws)
  then have ws: "workers s = [w]" using assms(2) by (simp add: drain_inv_def)
  obtain e ph where w: "w = (e, ph)" by (cases w)
  show ?thesis
    using assms(1) ws w
    by (cases ph; cases r)
       (simp_all add: extract_done_def ocr_done_def overlay_done_def resume_loop_def set_phase_def
          remove_nth_def Let_def)
qed

lemma loop_iter_queue:
  "loop_iter s = (s', w) \<Longrightarrow>
     set (processingQueue s') \<subseteq> set (processingQueue s) \<and> observedImages s' = observedImages s \<and>
     enqueued s' = enqueued s \<and> isPixiv s' = isPixiv s \<and> waiting s' = waiting s"
  by (auto simp add: loop_iter_def start_item_def split: list.splits if_splits)

text \<open>
  With the observer disconnected, only the discovery calls that are already suspended
  can still admit an element.
\<close>

lemma processQueue_within:
  "admits_within P s0 s \<Longrightarrow> admits_within P s0 (processQueue s)"
proof -
  assume a: "admits_within P s0 s"
  obtain s' w where li: "loop_iter (s\<lparr>isProcessing := True\<rparr>) = (s', w)"
    by (cases "loop_iter (s\<lparr>isProcessing := True\<rparr>)")
  have "admits_within P s0 s'"
    using loop_iter_queue [OF li] a by (auto simp add: admits_within_def awaited_def)
  then show ?thesis
    using a li by (auto simp add: processQueue_def admits_within_def awaited_def split: option.splits)
qed

lemma awaited_remove_nth: "fst ` set (remove_nth k ws) \<subseteq> fst ` set ws"
  by (auto simp add: remove_nth_def dest: in_set_takeD in_set_dropD)

lemma load_settled_within:
  assumes "admits_within P s0 s"
  shows "admits_within P s0 (load_settled k i s)"
proof (cases "k < length (waiting s) \<and> fst (waiting s ! k) = hid i")
  case False
  then show ?thesis using assms by (auto simp add: load_settled_def)
next
  case True
  then have "hid i \<in> awaited s"
    unfolding awaited_def by (metis image_eqI nth_mem)
  then have h: "hid i \<in> P" using assms by (auto simp add: admits_within_def)
  let ?s = "s\<lparr>waiting := remove_nth k (waiting s)\<rparr>"
  have "awaited ?s \<subseteq> awaited s"
    using awaited_remove_nth [of k "waiting s"] by (simp add: awaited_def)
  then have a: "admits_within P s0 ?s"
    using assms by (auto simp add: admits_within_def)
  have g: "admits_within P s0 (admit_generic (hid i) ?s)"
    using a h by (auto simp add: admits_within_def admit_generic_def awaited_def)
  have p: "admits_within P s0 (admit_pixiv (hid i) orig ?s)" for orig
    using a h by (auto simp add: admits_within_def admit_pixiv_def awaited_def)
  show ?thesis
    using True a g p
    by (simp add: load_settled_def Let_def check_generic_def check_pixiv_def processQueue_within
        split: option.splits)
qed

lemma worker_steps_within:
  "admits_within P s0 s \<Longrightarrow> admits_within P s0 (extract_done k r s)"
  "admits_within P s0 s \<Longrightarrow> admits_within P s0 (ocr_done k res s)"
  "admits_within P s0 s \<Longrightarrow> admits_within P s0 (overlay_done k s)"
  by (simp_all add: admits_within_def awaited_def extract_done_def ocr_done_def overlay_done_def
      set_phase_def split: prod.splits phase.splits option.splits ocr_result.splits)

lemma resume_loop_within: "admits_within P s0 s \<Longrightarrow> admits_within P s0 (resume_loop k s)"
proof -
  assume a: "admits_within P s0 s"
  define u where "u = (if snd (workers s ! k) = Thrown
        then s\<lparr>failedImages := insert (fst (workers s ! k)) (failedImages s)\<rparr> else s)"
  have au: "admits_within P s0 u" using a by (simp add: u_def admits_within_def awaited_def)
  obtain s' w where li: "loop_iter u = (s', w)" by (cases "loop_iter u")
  have "admits_within P s0 s'"
    using loop_iter_queue [OF li] au by (auto simp add: admits_within_def awaited_def)
  then show ?thesis
    using a au li
    by (auto simp add: resume_loop_def Let_def u_def [symmetric] admits_within_def awaited_def
        split: option.splits)
qed

lemma nav_within:
  "admits_within P s0 s \<Longrightarrow> admits_within P s0 (url_changed s)"
  "admits_within P s0 s \<Longrightarrow> admits_within P s0 (page_leaving s)"
  by (simp_all add: admits_within_def awaited_def url_changed_def page_leaving_def)

lemma step_within:
  assumes "admits_within P s0 s" and "\<not> observing s"
  shows "admits_within P s0 (step ev s)"
  using assms
  by (cases ev)
     (simp_all add: load_settled_within worker_steps_within resume_loop_within nav_within)

lemma run_within:
  "admits_within P s0 s \<Longrightarrow> isPageChanging s \<Longrightarrow> \<not> observing s \<Longrightarrow>
     admits_within P s0 (run evs s)"
proof (induction evs arbitrary: s)
  case Nil
  then show ?case by simp
next
  case (Cons ev evs)
  have w: "wound_down s (step ev s)" using Cons.prems(2,3) by (rule step_changing)
  have "admits_within P s0 (step ev s)" using Cons.prems(1,3) by (rule step_within)
  then show ?case
    using Cons.IH [of "step ev s"] w Cons.prems by (simp add: wound_down_def)
qed

lemma trip_waiting:
  "is_trip t \<Longrightarrow> waiting (step t s) = waiting s \<and> observedImages (step t s) = observedImages s \<and>
     enqueued (step t s) = enqueued s"
  by (auto simp add: is_trip_def url_changed_def page_leaving_def)

lemma processQueue_keeps:
  "isPageChanging s \<Longrightarrow>
     processingQueue (processQueue s) = processingQueue s \<and>
     observedImages (processQueue s) = observedImages s"
  by (auto simp add: processQueue_def loop_iter_def split: list.splits)

lemma load_settled_after_trip:
  assumes "isPageChanging s" and "k < length (waiting s)" and "fst (waiting s ! k) = hid j"
    and "case snd (waiting s ! k) of None \<Rightarrow> passes_generic j | Some orig \<Rightarrow> passes_pixiv j"
  shows "hid j \<in> observedImages (load_settled k j s) \<and>
         hid j \<in> set (processingQueue (load_settled k j s))"
proof (cases "snd (waiting s ! k)")
  case None
  let ?s = "admit_generic (hid j) (s\<lparr>waiting := remove_nth k (waiting s)\<rparr>)"
  have "isPageChanging ?s" using assms(1) by (simp add: admit_generic_def)
  then have "processingQueue (processQueue ?s) = processingQueue ?s \<and>
      observedImages (processQueue ?s) = observedImages ?s"
    by (rule processQueue_keeps)
  then show ?thesis
    using assms None by (simp add: load_settled_def Let_def check_generic_def admit_generic_def)
next
  case (Some orig)
  let ?s = "admit_pixiv (hid j) orig (s\<lparr>waiting := remove_nth k (waiting s)\<rparr>)"
  have "isPageChanging ?s" using assms(1) by (simp add: admit_pixiv_def)
  then have "processingQueue (processQueue ?s) = processingQueue ?s \<and>
      observedImages (processQueue ?s) = observedImages ?s"
    by (rule processQueue_keeps)
  then show ?thesis
    using assms Some by (simp add: load_settled_def Let_def check_pixiv_def admit_pixiv_def)
qed

text \<open>
  Claim C5, as amended. A navigation event (changed URL, unload or history navigation)
  in any reachable state, in particular during an active drain, sets the navigation
  flag, empties the queue, disconnects the image observer and leaves the element in
  flight where it is; that element's processing then runs to its end and the loop
  stops. From then on, whatever happens, the flag stays set, the observer stays
  disconnected (its callback starts no further discovery call), no further element is
  shifted, sent to the OCR server or overlaid. A discovery call that was suspended in
  its load wait at the navigation and resumes with its element passing the size floor
  adds the element to the observed set and the queue; no element other than those of
  such calls is added to the observed set or pushed onto the queue.
\<close>

theorem navigation_trip_winds_down:
  assumes "is_trip t"
  shows "let s = run evs (init px imgs); s' = step t s; s'' = run later s' in
     isPageChanging s' \<and> processingQueue s' = [] \<and> \<not> observing s' \<and> workers s' = workers s \<and>
     workers (run [ExtractDone 0 r, OcrDone 0 res, OverlayDone 0, Continue 0] s') = [] \<and>
     isPageChanging s'' \<and> \<not> observing s'' \<and> started s'' = started s \<and>
     ocr_log s'' = ocr_log s \<and> overlay_log s'' = overlay_log s \<and>
     step (Observe i) s'' = s'' \<and>
     observedImages s'' \<subseteq> observedImages s \<union> awaited s \<and>
     set (enqueued s'') \<subseteq> set (enqueued s) \<union> awaited s \<and>
     set (processingQueue s'') \<subseteq> awaited s \<and>
     (k < length (waiting s'') \<and> fst (waiting s'' ! k) = hid j \<and>
      (case snd (waiting s'' ! k) of None \<Rightarrow> passes_generic j | Some orig \<Rightarrow> passes_pixiv j) \<longrightarrow>
        hid j \<in> observedImages (step (LoadSettled k j) s'') \<and>
        hid j \<in> set (processingQueue (step (LoadSettled k j) s'')))"
proof -
  define s where "s = run evs (init px imgs)"
  define s' where "s' = step t s"
  define s'' where "s'' = run later s'"
  have inv: "drain_inv s" unfolding s_def by (rule reachable_inv)
  have inv': "drain_inv s'" unfolding s'_def using inv by (rule step_inv)
  have trip: "isPageChanging s' \<and> processingQueue s' = [] \<and> \<not> observing s' \<and>
         workers s' = workers s \<and> started s' = started s \<and>
         ocr_log s' = ocr_log s \<and> overlay_log s' = overlay_log s"
    unfolding s'_def using assms inv by (rule trip_effect)
  have fin: "workers (run [ExtractDone 0 r, OcrDone 0 res, OverlayDone 0, Continue 0] s') = []"
    using trip inv' finish_after_trip [of s' r res] by simp
  have "wound_down s' s''"
    unfolding s''_def using trip by (intro run_changing) simp_all
  then have later: "isPageChanging s'' \<and> \<not> observing s'' \<and> started s'' = started s \<and>
     ocr_log s'' = ocr_log s \<and> overlay_log s'' = overlay_log s"
    using trip by (simp add: wound_down_def)
  then have obs: "step (Observe i) s'' = s''" by simp
  have same: "waiting s' = waiting s \<and> observedImages s' = observedImages s \<and> enqueued s' = enqueued s"
    unfolding s'_def using assms by (rule trip_waiting)
  have "admits_within (awaited s) s' s'"
    using same by (simp add: admits_within_def awaited_def)
  then have "admits_within (awaited s) s' s''"
    unfolding s''_def using trip by (intro run_within) simp_all
  then have adm: "observedImages s'' \<subseteq> observedImages s \<union> awaited s \<and>
     set (enqueued s'') \<subseteq> set (enqueued s) \<union> awaited s \<and>
     set (processingQueue s'') \<subseteq> awaited s"
    using same trip by (simp add: admits_within_def)
  have settle: "hid j \<in> observedImages (step (LoadSettled k j) s'') \<and>
        hid j \<in> set (processingQueue (step (LoadSettled k j) s''))"
    if "k < length (waiting s'') \<and> fst (waiting s'' ! k) = hid j \<and>
      (case snd (waiting s'' ! k) of None \<Rightarrow> passes_generic j | Some orig \<Rightarrow> passes_pixiv j)"
    using later that load_settled_after_trip [of s'' k j] by simp
  from trip fin later obs adm settle show ?thesis
    unfolding Let_def s_def [symmetric] s'_def [symmetric] s''_def [symmetric] by simp
qed

lemmas page_simps =
  init_def empty_page_def sample_img_def passes_generic_def passes_pixiv_def admit_generic_def
  admit_pixiv_def processQueue_def loop_iter_def start_item_def handleNewImage_def
  load_settled_def check_generic_def check_pixiv_def remove_nth_def set_phase_def
  extract_done_def ocr_done_def overlay_done_def resume_loop_def url_changed_def
  page_leaving_def num_or_def Let_def

theorem drain_strictly_sequential_witness:
  "started (run [ExtractDone 0 (Some ''data:a''), OcrDone 0 (OcrBlocks [''hello'']), OverlayDone 0,
                 Continue 0] (init False [img_a, img_b])) = [1, 2] \<and>
   workers (run [ExtractDone 0 (Some ''data:a''), OcrDone 0 (OcrBlocks [''hello'']), OverlayDone 0,
                 Continue 0] (init False [img_a, img_b])) = [(2, Extracting)] \<and>
   ocr_log (run [ExtractDone 0 (Some ''data:a''), OcrDone 0 (OcrBlocks [''hello'']), OverlayDone 0,
                 Continue 0] (init False [img_a, img_b])) = [1] \<and>
   isProcessing (run [ExtractDone 0 (Some ''data:a''), OcrDone 0 (OcrBlocks [''hello'']), OverlayDone 0,
                 Continue 0] (init False [img_a, img_b])) \<and>
   enqueued (run [ExtractDone 0 (Some ''data:a''), OcrDone 0 (OcrBlocks [''hello'']), OverlayDone 0,
                 Continue 0] (init False [img_a, img_b])) = [1, 2]"
proof -
  define s where "s = run [ExtractDone 0 (Some ''data:a''), OcrDone 0 (OcrBlocks [''hello'']),
      OverlayDone 0, Continue 0] (init False [img_a, img_b])"
  have ev: "started s = [1, 2]" "workers s = [(2, Extracting)]" "ocr_log s = [1]"
    "processingQueue s = []" "\<not> isPageChanging s"
    unfolding s_def by (simp_all add: page_simps img_a_def img_b_def)
  have "isProcessing s = (workers s \<noteq> []) \<and> (isPageChanging s \<or> enqueued s = started s @ processingQueue s)"
    using drain_strictly_sequential [of "[ExtractDone 0 (Some ''data:a''), OcrDone 0 (OcrBlocks [''hello'']),
      OverlayDone 0, Continue 0]" False "[img_a, img_b]"]
    unfolding Let_def s_def [symmetric] by simp
  with ev show ?thesis
    unfolding s_def [symmetric] by simp
qed

theorem navigation_trip_winds_down_witness:
  "is_trip Popstate \<and>
   workers (run [Observe img_c_loading, ExtractDone 0 (Some ''data:a'')] (init False [img_a, img_b])) =
     [(1, OcrCall ''data:a'')] \<and>
   processingQueue (run [Observe img_c_loading, ExtractDone 0 (Some ''data:a'')] (init False [img_a, img_b])) = [2] \<and>
   awaited (run [Observe img_c_loading, ExtractDone 0 (Some ''data:a'')] (init False [img_a, img_b])) = {3} \<and>
   processingQueue (step Popstate
     (run [Observe img_c_loading, ExtractDone 0 (Some ''data:a'')] (init False [img_a, img_b]))) = [] \<and>
   started (run [OcrDone 0 (OcrBlocks [''hello'']), Continue 0, Observe img_small]
     (step Popstate (run [Observe img_c_loading, ExtractDone 0 (Some ''data:a'')] (init False [img_a, img_b])))) = [1] \<and>
   overlay_log (run [OcrDone 0 (OcrBlocks [''hello'']), Continue 0, Observe img_small]
     (step Popstate (run [Observe img_c_loading, ExtractDone 0 (Some ''data:a'')] (init False [img_a, img_b])))) = [] \<and>
   workers (run [OcrDone 0 (OcrBlocks [''hello'']), Continue 0, Observe img_small]
     (step Popstate (run [Observe img_c_loading, ExtractDone 0 (Some ''data:a'')] (init False [img_a, img_b])))) = [] \<and>
   3 \<in> observedImages (step (LoadSettled 0 img_c)
     (run [OcrDone 0 (OcrBlocks [''hello'']), Continue 0, Observe img_small]
       (step Popstate (run [Observe img_c_loading, ExtractDone 0 (Some ''data:a'')] (init False [img_a, img_b]))))) \<and>
   started (step (LoadSettled 0 img_c)
     (run [OcrDone 0 (OcrBlocks [''hello'']), Continue 0, Observe img_small]
       (step Popstate (run [Observe img_c_loading, ExtractDone 0 (Some ''data:a'')] (init False [img_a, img_b]))))) = [1]"
proof -
  define s where "s = run [Observe img_c_loading, ExtractDone 0 (Some ''data:a'')] (init False [img_a, img_b])"
  define s2 where "s2 = run [OcrDone 0 (OcrBlocks [''hello'']), Continue 0, Observe img_small] (step Popstate s)"
  define s3 where "s3 = step (LoadSettled 0 img_c) s2"
  have s3': "s3 = run ([OcrDone 0 (OcrBlocks [''hello'']), Continue 0, Observe img_small] @ [LoadSettled 0 img_c])
      (step Popstate s)"
    unfolding s3_def s2_def by simp
  have trip: "is_trip Popstate" by (simp add: is_trip_def)
  have ev: "workers s = [(1, OcrCall ''data:a'')]" "processingQueue s = [2]" "started s = [1]"
    "overlay_log s = []" "awaited s = {3}"
    unfolding s_def by (simp_all add: page_simps awaited_def img_a_def img_b_def img_c_loading_def)
  have ev2: "waiting s2 = [(3, None)]" "workers s2 = []"
    unfolding s2_def s_def
    by (simp_all add: page_simps img_a_def img_b_def img_c_loading_def img_small_def)
  have c: "hid img_c = 3" "passes_generic img_c"
    by (simp_all add: img_c_def sample_img_def passes_generic_def)
  have "processingQueue (step Popstate s) = [] \<and> started s2 = started s \<and>
        overlay_log s2 = overlay_log s \<and> 3 \<in> observedImages s3"
    using navigation_trip_winds_down [OF trip,
        of "[Observe img_c_loading, ExtractDone 0 (Some ''data:a'')]" False "[img_a, img_b]"
        "[OcrDone 0 (OcrBlocks [''hello'']), Continue 0, Observe img_small]" _ _ _ 0 img_c] ev2 c
    unfolding Let_def s_def [symmetric] s2_def [symmetric] s3_def [symmetric] by simp
  moreover have "started s3 = started s"
    using navigation_trip_winds_down [OF trip,
        of "[Observe img_c_loading, ExtractDone 0 (Some ''data:a'')]" False "[img_a, img_b]"
        "[OcrDone 0 (OcrBlocks [''hello'']), Continue 0, Observe img_small] @ [LoadSettled 0 img_c]"]
    unfolding Let_def s_def [symmetric] s3' [symmetric] by simp
  ultimately show ?thesis
    using trip ev ev2
    unfolding s_def [symmetric] s2_def [symmetric] s3_def [symmetric] by simp
qed

text \<open>
  The claim as stated fails in its last clause: a discovery call that is suspended in
  its load wait at the navigation resumes afterwards and admits its element, since
  \<^verbatim>\<open>handleNewImage\<close> does not look at the navigation flag. The element is observed
  and queued after the navigation, and never shifted.
\<close>

theorem suspended_call_admits_after_trip_counterexample:
  "observedImages (run [Observe img_c_loading] (init False [img_a])) = {1} \<and>
   isPageChanging (run [Observe img_c_loading, Popstate] (init False [img_a])) \<and>
   processingQueue (run [Observe img_c_loading, Popstate] (init False [img_a])) = [] \<and>
   observedImages (run [Observe img_c_loading, Popstate, LoadSettled 0 img_c] (init False [img_a])) = {1, 3} \<and>
   processingQueue (run [Observe img_c_loading, Popstate, LoadSettled 0 img_c] (init False [img_a])) = [3] \<and>
   started (run [Observe img_c_loading, Popstate, LoadSettled 0 img_c] (init False [img_a])) = [1]"
  by (auto simp add: page_simps img_a_def img_c_def img_c_loading_def)

section \<open>The size floor\<close>

lemma below_floor_generic: "below_floor False i \<Longrightarrow> \<not> passes_generic i"
  by (auto simp add: below_floor_def floor_width_def floor_height_def passes_generic_def)

lemma below_floor_pixiv: "below_floor True i \<Longrightarrow> \<not> passes_pixiv i"
  by (auto simp add: below_floor_def floor_width_def floor_height_def passes_pixiv_def)

lemma processQueue_not_admitted: "not_admitted px h s \<Longrightarrow> not_admitted px h (processQueue s)"
proof -
  assume na: "not_admitted px h s"
  obtain s' w where li: "loop_iter (s\<lparr>isProcessing := True\<rparr>) = (s', w)"
    by (cases "loop_iter (s\<lparr>isProcessing := True\<rparr>)")
  have "not_admitted px h s'"
    using loop_iter_queue [OF li] na by (auto simp add: not_admitted_def)
  then show ?thesis
    using na li by (auto simp add: processQueue_def not_admitted_def split: option.splits)
qed

lemma check_generic_not_admitted:
  "not_admitted False h s \<Longrightarrow> other_or_small False h i \<Longrightarrow> not_admitted False h (check_generic i s)"
proof (cases "passes_generic i")
  case False
  assume "not_admitted False h s"
  with False show ?thesis by (simp add: check_generic_def)
next
  case True
  assume na: "not_admitted False h s" and "other_or_small False h i"
  with True have "hid i \<noteq> h"
    using below_floor_generic by (auto simp add: other_or_small_def)
  then have "not_admitted False h (admit_generic (hid i) s)"
    using na by (simp add: not_admitted_def admit_generic_def)
  then show ?thesis
    using True by (simp add: check_generic_def processQueue_not_admitted)
qed

lemma check_pixiv_not_admitted:
  "not_admitted True h s \<Longrightarrow> other_or_small True h i \<Longrightarrow> not_admitted True h (check_pixiv i orig s)"
proof (cases "passes_pixiv i")
  case False
  assume "not_admitted True h s"
  with False show ?thesis by (simp add: check_pixiv_def)
next
  case True
  assume na: "not_admitted True h s" and "other_or_small True h i"
  with True have "hid i \<noteq> h"
    using below_floor_pixiv by (auto simp add: other_or_small_def)
  then have "not_admitted True h (admit_pixiv (hid i) orig s)"
    using na by (simp add: not_admitted_def admit_pixiv_def)
  then show ?thesis
    using True by (simp add: check_pixiv_def processQueue_not_admitted)
qed

lemma handleNewImage_not_admitted:
  assumes "not_admitted px h s" and "other_or_small px h i"
  shows "not_admitted px h (handleNewImage i s)"
proof (cases px)
  case True
  then have px: "isPixiv s" using assms(1) by (simp add: not_admitted_def)
  have w: "not_admitted True h (s\<lparr>waiting := waiting s @ [(hid i, Some u)]\<rparr>)" for u
    using assms(1) True by (simp add: not_admitted_def)
  show ?thesis
    using assms True px w check_pixiv_not_admitted [of h s i]
    by (simp add: handleNewImage_def split: option.splits)
next
  case False
  then have px: "\<not> isPixiv s" using assms(1) by (simp add: not_admitted_def)
  have w: "not_admitted False h (s\<lparr>waiting := waiting s @ [(hid i, None)]\<rparr>)"
    using assms(1) False by (simp add: not_admitted_def)
  show ?thesis
    using assms False px w check_generic_not_admitted [of h s i]
    by (simp add: handleNewImage_def)
qed

lemma list_all_remove_nth: "list_all P xs \<Longrightarrow> list_all P (remove_nth k xs)"
  by (auto simp add: remove_nth_def list_all_iff dest: in_set_takeD in_set_dropD)

lemma load_settled_not_admitted:
  assumes "not_admitted px h s" and "other_or_small px h i"
  shows "not_admitted px h (load_settled k i s)"
proof (cases "k < length (waiting s) \<and> fst (waiting s ! k) = hid i")
  case False
  then show ?thesis using assms(1) by (auto simp add: load_settled_def)
next
  case True
  let ?s = "s\<lparr>waiting := remove_nth k (waiting s)\<rparr>"
  have na: "not_admitted px h ?s"
    using assms(1) by (simp add: not_admitted_def list_all_remove_nth)
  have branch: "(snd (waiting s ! k) \<noteq> None) = px"
    using assms(1) True by (simp add: not_admitted_def list_all_length)
  show ?thesis
  proof (cases "snd (waiting s ! k)")
    case None
    then have "\<not> px" using branch by simp
    then show ?thesis
      using True None na assms(2) check_generic_not_admitted [of h ?s i]
      by (simp add: load_settled_def)
  next
    case (Some orig)
    then have "px" using branch by simp
    then show ?thesis
      using True Some na assms(2) check_pixiv_not_admitted [of h ?s i orig]
      by (simp add: load_settled_def)
  qed
qed

lemma worker_steps_not_admitted:
  "not_admitted px h s \<Longrightarrow> not_admitted px h (extract_done k r s)"
  "not_admitted px h s \<Longrightarrow> not_admitted px h (ocr_done k res s)"
  "not_admitted px h s \<Longrightarrow> not_admitted px h (overlay_done k s)"
  by (simp_all add: not_admitted_def extract_done_def ocr_done_def overlay_done_def set_phase_def
      split: prod.splits phase.splits option.splits ocr_result.splits)

lemma resume_loop_not_admitted: "not_admitted px h s \<Longrightarrow> not_admitted px h (resume_loop k s)"
proof -
  assume na: "not_admitted px h s"
  define s0 where "s0 = (if snd (workers s ! k) = Thrown
        then s\<lparr>failedImages := insert (fst (workers s ! k)) (failedImages s)\<rparr> else s)"
  have na0: "not_admitted px h s0" using na by (simp add: s0_def not_admitted_def)
  obtain s' w where li: "loop_iter s0 = (s', w)" by (cases "loop_iter s0")
  have "not_admitted px h s'"
    using loop_iter_queue [OF li] na0 by (auto simp add: not_admitted_def)
  then show ?thesis
    using na na0 li
    by (auto simp add: resume_loop_def Let_def s0_def [symmetric] not_admitted_def split: option.splits)
qed

lemma nav_not_admitted:
  "not_admitted px h s \<Longrightarrow> not_admitted px h (url_changed s)"
  "not_admitted px h s \<Longrightarrow> not_admitted px h (page_leaving s)"
  by (simp_all add: not_admitted_def url_changed_def page_leaving_def)

lemma step_not_admitted:
  assumes "not_admitted px h s"
    and "case event_img ev of None \<Rightarrow> True | Some i \<Rightarrow> other_or_small px h i"
  shows "not_admitted px h (step ev s)"
  using assms
  by (cases ev)
     (simp_all add: handleNewImage_not_admitted load_settled_not_admitted worker_steps_not_admitted
        resume_loop_not_admitted nav_not_admitted)

lemma run_not_admitted:
  "not_admitted px h s \<Longrightarrow>
   list_all (\<lambda>ev. case event_img ev of None \<Rightarrow> True | Some i \<Rightarrow> other_or_small px h i) evs \<Longrightarrow>
   not_admitted px h (run evs s)"
  by (induction evs arbitrary: s) (simp_all add: step_not_admitted)

lemma queueAllImages_not_admitted:
  "not_admitted False h s \<Longrightarrow> list_all (other_or_small False h) imgs \<Longrightarrow>
   not_admitted False h (queueAllImages imgs s)"
proof (induction imgs arbitrary: s)
  case Nil
  then show ?case by simp
next
  case (Cons i imgs)
  have "not_admitted False h (if passes_generic i then admit_generic (hid i) s else s)"
    using Cons.prems below_floor_generic [of i]
    by (auto simp add: other_or_small_def not_admitted_def admit_generic_def)
  then show ?case using Cons by simp
qed

lemma handlePixivImages_not_admitted:
  "not_admitted True h s \<Longrightarrow> list_all (other_or_small True h) imgs \<Longrightarrow>
   not_admitted True h (handlePixivImages imgs s)"
proof (induction imgs arbitrary: s)
  case Nil
  then show ?case by simp
next
  case (Cons i imgs)
  have "not_admitted True h (if passes_pixiv i then admit_pixiv (hid i) u s else s)" for u
    using Cons.prems below_floor_pixiv [of i]
    by (auto simp add: other_or_small_def not_admitted_def admit_pixiv_def)
  then have "not_admitted True h (case pixiv_source i of None \<Rightarrow> s
      | Some src \<Rightarrow> if passes_pixiv i then admit_pixiv (hid i) (originalSrc src) s else s)"
    using Cons.prems(1) by (simp split: option.splits)
  then show ?case using Cons by simp
qed

lemma init_not_admitted:
  assumes "list_all (other_or_small px h) imgs"
  shows "not_admitted px h (init px imgs)"
proof -
  have e: "not_admitted px h (empty_page px)"
    by (simp add: not_admitted_def empty_page_def)
  have obs: "not_admitted px h s \<Longrightarrow> not_admitted px h (s\<lparr>imageObserver_set := True, observing := True\<rparr>)" for s
    by (simp add: not_admitted_def)
  show ?thesis
  proof (cases px)
    case True
    then show ?thesis
      using assms e obs handlePixivImages_not_admitted [of h "empty_page True" imgs]
      by (simp add: init_def processQueue_not_admitted)
  next
    case False
    then show ?thesis
      using assms e obs queueAllImages_not_admitted [of h "empty_page False" imgs]
      by (simp add: init_def processQueue_not_admitted)
  qed
qed

text \<open>
  Claim C9, as amended. An element that is below the floor whenever a protocol reads
  its dimensions (the natural dimensions under the generic protocol; natural
  dimensions with the layout dimension standing in for zero under the site-specific
  one) is never added to the observed set or pushed onto the queue, by the initial scan
  or by mutation-driven discovery.
\<close>

theorem below_floor_never_admitted:
  assumes "small_throughout px h imgs evs"
  shows "h \<notin> observedImages (run evs (init px imgs)) \<and>
         h \<notin> set (enqueued (run evs (init px imgs))) \<and>
         h \<notin> set (processingQueue (run evs (init px imgs)))"
proof -
  have "not_admitted px h (init px imgs)"
    using assms by (intro init_not_admitted) (simp add: small_throughout_def)
  then have "not_admitted px h (run evs (init px imgs))"
    using assms by (intro run_not_admitted) (simp_all add: small_throughout_def)
  then show ?thesis by (simp add: not_admitted_def)
qed

theorem below_floor_never_admitted_witness:
  "small_throughout False 4 [img_a, img_small] [Observe img_small] \<and>
   observedImages (run [Observe img_small] (init False [img_a, img_small])) = {1} \<and>
   4 \<notin> set (enqueued (run [Observe img_small] (init False [img_a, img_small]))) \<and>
   small_throughout True 6 [img_small_px] [Observe img_small_px] \<and>
   6 \<notin> observedImages (run [Observe img_small_px] (init True [img_small_px]))"
proof -
  have g: "small_throughout False 4 [img_a, img_small] [Observe img_small]"
    by (simp add: small_throughout_def other_or_small_def below_floor_def floor_width_def
        floor_height_def img_a_def img_small_def sample_img_def)
  have p: "small_throughout True 6 [img_small_px] [Observe img_small_px]"
    by (simp add: small_throughout_def other_or_small_def below_floor_def floor_width_def
        floor_height_def img_small_px_def sample_img_def num_or_def)
  have obs: "observedImages (run [Observe img_small] (init False [img_a, img_small])) = {1}"
    by (simp add: page_simps img_a_def img_small_def)
  show ?thesis
    using g p obs below_floor_never_admitted [OF g] below_floor_never_admitted [OF p]
    by simp
qed

text \<open>
  The claim as stated fails under the site-specific protocol: an image whose natural
  dimensions are zero, because it has not loaded when the wait of 5000 ms ends, is
  judged by its layout dimensions and admitted when these exceed 200.
\<close>

theorem unloaded_image_admitted_counterexample:
  "naturalWidth img_unloaded = 0 \<and> naturalHeight img_unloaded = 0 \<and>
   hid img_unloaded \<in> observedImages (init True [img_unloaded]) \<and>
   enqueued (init True [img_unloaded]) = [hid img_unloaded]"
  by (simp add: img_unloaded_def page_simps pixiv_source_def first_src_def)

section \<open>Per-item processing and admission at concrete inputs\<close>

text \<open>
  In the current content script an empty list of text blocks changes neither the failed
  set nor the overlay log nor the processed set, in whatever state the answer arrives.
\<close>

lemma ocr_done_empty_blocks:
  "failedImages (ocr_done k (OcrBlocks []) s) = failedImages s \<and>
   overlay_log (ocr_done k (OcrBlocks []) s) = overlay_log s \<and>
   processedImages (ocr_done k (OcrBlocks []) s) = processedImages s"
  by (simp add: ocr_done_def set_phase_def split: prod.splits phase.splits)

text \<open>
  Claim C2. The claim holds for \<^verbatim>\<open>processImage\<close> of chome-extention/content.js, but
  the \<^verbatim>\<open>processImage\<close> of src/content.js, which the claim also names, adds the element
  to the failed set when the OCR result has an empty \<^verbatim>\<open>text_blocks\<close> list. Here
  element 1 of 300 by 400 pixels has been acquired and sent to the OCR server, and the
  answer \<^verbatim>\<open>{text_blocks: []}\<close> arrives.
\<close>

theorem legacy_empty_blocks_marked_failed:
  "workers (run [ExtractDone 0 (Some ''data:a'')] (init False [img_a])) = [(1, OcrCall ''data:a'')] \<and>
   failedImages (ocr_done_legacy 0 (OcrBlocks []) (run [ExtractDone 0 (Some ''data:a'')] (init False [img_a]))) = {1} \<and>
   failedImages (ocr_done 0 (OcrBlocks []) (run [ExtractDone 0 (Some ''data:a'')] (init False [img_a]))) = {} \<and>
   processedImages (ocr_done 0 (OcrBlocks []) (run [ExtractDone 0 (Some ''data:a'')] (init False [img_a]))) = {1}"
  by (simp add: page_simps ocr_done_legacy_def img_a_def)

text \<open>
  Claim C3. The guard of \<^verbatim>\<open>handleNewImage\<close> is evaluated before the wait for the image
  to load and not again after it. Element 3 is observed twice while it loads (once as
  an added node, once for a changed attribute); both calls pass the guard and are
  suspended, and when the image has loaded both push the element: the queue holds it
  twice. The guard of \<^verbatim>\<open>processImage\<close> then lets only the first of the two through
  to the OCR server.
\<close>

theorem reobserved_loading_image_queued_twice:
  "processingQueue (run [Observe img_c_loading, Observe img_c_loading, LoadSettled 0 img_c,
      LoadSettled 0 img_c] (init False [img_a])) = [3, 3] \<and>
   ocr_log (run [Observe img_c_loading, Observe img_c_loading, LoadSettled 0 img_c,
      LoadSettled 0 img_c, ExtractDone 0 None, Continue 0, ExtractDone 0 (Some ''data:c''),
      OcrDone 0 (OcrBlocks []), Continue 0, ExtractDone 0 (Some ''data:c''), Continue 0]
      (init False [img_a])) = [3] \<and>
   started (run [Observe img_c_loading, Observe img_c_loading, LoadSettled 0 img_c,
      LoadSettled 0 img_c, ExtractDone 0 None, Continue 0, ExtractDone 0 (Some ''data:c''),
      OcrDone 0 (OcrBlocks []), Continue 0, ExtractDone 0 (Some ''data:c''), Continue 0]
      (init False [img_a])) = [1, 3, 3]"
  by (simp add: page_simps img_a_def img_c_def img_c_loading_def)

section \<open>Degraded-variant sources on the hostile host\<close>

lemma starts_with_append: "starts_with s p \<Longrightarrow> starts_with (s @ x) p"
  by (induction s p rule: starts_with.induct) simp_all

lemma starts_with_self: "starts_with (p @ x) p"
  by (induction p) simp_all

lemma includes_str_append: "includes_str s sub \<Longrightarrow> includes_str (s @ x) sub"
proof (induction s)
  case Nil
  then show ?case by (cases x) simp_all
next
  case (Cons c cs)
  then show ?case using starts_with_append [of "c # cs" sub x] by auto
qed

lemma includes_str_prepend: "includes_str s sub \<Longrightarrow> includes_str (a @ s) sub"
proof (induction a)
  case Nil
  then show ?case by simp
next
  case (Cons c cs)
  then show ?case by simp
qed

lemma match_lit_self: "match_lit p (p @ x) = Some x"
  by (simp add: match_lit_def starts_with_self)

lemma regex_replace_first:
  "unmatched m a rest \<Longrightarrow> m rest = Some r \<Longrightarrow> regex_replace m rep (a @ rest) = a @ rep @ r"
proof (induction a)
  case Nil
  then show ?case by (cases rest) simp_all
next
  case (Cons c cs)
  then show ?case by simp
qed

lemma regex_replace_none:
  "unmatched m s [] \<Longrightarrow> m [] = None \<Longrightarrow> regex_replace m rep s = s"
  by (induction s) simp_all

lemma unmatched_append:
  "unmatched m a (b @ rest) \<Longrightarrow> unmatched m b rest \<Longrightarrow> unmatched m (a @ b) rest"
  by (induction a) simp_all

lemma match_digits_eq:
  "takeWhile is_digit s \<noteq> [] \<Longrightarrow> match_digits s = Some (dropWhile is_digit s)"
  by (cases s) (auto simp add: match_digits_def split: if_splits)

lemma dropWhile_append_stop:
  "dropWhile P xs \<noteq> [] \<Longrightarrow> dropWhile P (xs @ ys) = dropWhile P xs @ ys"
  by (induction xs) auto

lemma takeWhile_append_nonempty:
  "takeWhile P xs \<noteq> [] \<Longrightarrow> takeWhile P (xs @ ys) \<noteq> []"
  by (cases xs) (auto split: if_splits)

lemma not_digit_slash: "\<not> is_digit CHR ''/''"
  by (simp add: is_digit_def)

lemma skip_to_slash:
  "CHR ''/'' \<notin> set xs \<Longrightarrow>
     dropWhile (\<lambda>c. c \<noteq> CHR ''/'') (dropWhile is_digit (xs @ CHR ''/'' # rest)) = CHR ''/'' # rest"
proof (induction xs)
  case Nil
  then show ?case by (simp add: not_digit_slash)
next
  case (Cons c cs)
  show ?case
  proof (cases "is_digit c")
    case True
    then show ?thesis using Cons by simp
  next
    case False
    have "dropWhile (\<lambda>c. c \<noteq> CHR ''/'') (cs @ CHR ''/'' # rest) = CHR ''/'' # rest"
      using Cons.prems by (induction cs) auto
    then show ?thesis using False Cons.prems by auto
  qed
qed

lemma match_resize_segment:
  assumes "resize_segment seg" and "seg \<noteq> []"
  shows "match_resize (seg @ CHR ''/'' # rest) = Some rest"
proof -
  define wh where "wh = drop 3 seg"
  define r where "r = dropWhile is_digit wh"
  have sw: "starts_with seg ''/c/''" and w: "takeWhile is_digit wh \<noteq> []"
    and rx: "starts_with r ''x''" and h: "takeWhile is_digit (drop 1 r) \<noteq> []"
    and ns: "CHR ''/'' \<notin> set (drop 1 r)"
    using assms by (simp_all add: resize_segment_def Let_def wh_def r_def)
  have seg: "seg = ''/c/'' @ wh"
    using sw unfolding wh_def
    by (cases seg; cases "tl seg"; cases "tl (tl seg)") auto
  obtain r' where r': "r = CHR ''x'' # r'"
    using rx by (cases r) auto
  have s1: "match_lit ''/c/'' (seg @ CHR ''/'' # rest) = Some (wh @ CHR ''/'' # rest)"
    using match_lit_self [of "''/c/''" "wh @ CHR ''/'' # rest"] seg by simp
  have s2: "match_digits (wh @ CHR ''/'' # rest) = Some (CHR ''x'' # r' @ CHR ''/'' # rest)"
    using w r' match_digits_eq [of "wh @ CHR ''/'' # rest"]
      takeWhile_append_nonempty [of is_digit wh] dropWhile_append_stop [of is_digit wh]
    by (simp add: r_def)
  have s3: "match_lit ''x'' (CHR ''x'' # r' @ CHR ''/'' # rest) = Some (r' @ CHR ''/'' # rest)"
    by (simp add: match_lit_def)
  have s4: "match_digits (r' @ CHR ''/'' # rest) = Some (dropWhile is_digit (r' @ CHR ''/'' # rest))"
    using h r' match_digits_eq [of "r' @ CHR ''/'' # rest"] takeWhile_append_nonempty [of is_digit r']
    by simp
  have s5: "dropWhile (\<lambda>c. c \<noteq> CHR ''/'') (dropWhile is_digit (r' @ CHR ''/'' # rest)) = CHR ''/'' # rest"
    using ns r' by (intro skip_to_slash) simp
  have s6: "match_lit ''/'' (CHR ''/'' # rest) = Some rest"
    by (simp add: match_lit_def)
  show ?thesis
    by (simp only: match_resize_def s1 s2 s3 s4 s5 s6 option.case)
qed

lemma match_variant_suffix:
  assumes "ds \<noteq> []" and "list_all is_digit ds"
  shows "match_variant tag (tag @ ds @ ''.'' @ ext) = Some ext"
proof -
  have nd: "\<not> is_digit CHR ''.''" by (simp add: is_digit_def)
  have tw: "takeWhile is_digit (ds @ ''.'' @ ext) \<noteq> []"
    using assms by (cases ds) auto
  have dw: "dropWhile is_digit (ds @ ''.'' @ ext) = ''.'' @ ext"
    using assms(2) nd by (simp add: dropWhile_append2 list_all_iff)
  have m2: "match_digits (ds @ ''.'' @ ext) = Some (''.'' @ ext)"
    using match_digits_eq [OF tw] dw by simp
  have m1: "match_lit tag (tag @ ds @ ''.'' @ ext) = Some (ds @ ''.'' @ ext)"
    by (rule match_lit_self)
  have m3: "match_lit ''.'' (''.'' @ ext) = Some ext"
    by (rule match_lit_self)
  show ?thesis
    by (simp only: match_variant_def m1 m2 m3 option.case)
qed

lemma match_resize_Nil: "match_resize [] = None"
  by (simp add: match_resize_def match_lit_def)

lemma match_variant_Nil: "tag \<noteq> [] \<Longrightarrow> match_variant tag [] = None"
  by (cases tag) (simp_all add: match_variant_def match_lit_def)

text \<open>The derived URL of a degraded-variant source.\<close>

lemma originalSrc_degraded:
  assumes "degraded_url a seg b tag ds ext"
  shows "originalSrc (a @ seg @ b @ tag @ ds @ ''.'' @ ext) = a @ b @ ''_master1200.'' @ ext"
proof -
  let ?rest = "b @ tag @ ds @ ''.'' @ ext"
  let ?src = "a @ seg @ ?rest"
  obtain b' where b: "b = CHR ''/'' # b'"
    using assms by (cases b) (auto simp add: degraded_url_def)
  have ds: "ds \<noteq> []" "list_all is_digit ds"
    using assms by (simp_all add: degraded_url_def)
  have tag: "tag = ''_square'' \<or> tag = ''_custom''"
    using assms by (auto simp add: degraded_url_def)
  have strip: "regex_replace match_resize ''/'' ?src = a @ ?rest"
  proof (cases "seg = []")
    case True
    then have "unmatched match_resize (a @ ?rest) []"
      using assms unmatched_append [of match_resize a ?rest "[]"] by (simp add: degraded_url_def)
    then show ?thesis
      using True regex_replace_none [of match_resize "a @ ?rest" "''/''"] match_resize_Nil by simp
  next
    case False
    have m: "match_resize (seg @ ?rest) = Some (b' @ tag @ ds @ ''.'' @ ext)"
      using assms False b match_resize_segment [of seg "b' @ tag @ ds @ ''.'' @ ext"]
      by (simp add: degraded_url_def)
    have u: "unmatched match_resize a (seg @ ?rest)"
      using assms by (simp add: degraded_url_def)
    show ?thesis
      using regex_replace_first [OF u m, of "''/''"] b by simp
  qed
  have o1: "(if includes_str ?src ''/c/'' then regex_replace match_resize ''/'' ?src else ?src) = a @ ?rest"
  proof (cases "seg = []")
    case True
    then show ?thesis using strip by simp
  next
    case False
    then have "starts_with (seg @ ?rest) ''/c/''"
      using assms starts_with_append [of seg "''/c/''" ?rest] by (simp add: degraded_url_def resize_segment_def)
    then have "includes_str (seg @ ?rest) ''/c/''"
      by (cases "seg @ ?rest") simp_all
    then have "includes_str ?src ''/c/''" by (rule includes_str_prepend)
    then show ?thesis using strip by simp
  qed
  have mv: "match_variant tag (tag @ ds @ ''.'' @ ext) = Some ext"
    using ds by (rule match_variant_suffix)
  have um: "unmatched (match_variant tag) (a @ b) (tag @ ds @ ''.'' @ ext)"
    using assms by (simp add: degraded_url_def)
  have own: "regex_replace (match_variant tag) ''_master1200.'' (a @ ?rest) = a @ b @ ''_master1200.'' @ ext"
    using regex_replace_first [OF um mv, of "''_master1200.''"] by simp
  show ?thesis
  proof (cases "tag = ''_square''")
    case True
    then have "unmatched (match_variant ''_custom'') (a @ b @ ''_master1200.'' @ ext) []"
      using assms by (auto simp add: degraded_url_def)
    then have "regex_replace (match_variant ''_custom'') ''_master1200.'' (a @ b @ ''_master1200.'' @ ext)
        = a @ b @ ''_master1200.'' @ ext"
      by (intro regex_replace_none match_variant_Nil) simp_all
    then show ?thesis
      unfolding originalSrc_def Let_def o1 using own True by simp
  next
    case False
    then have c: "tag = ''_custom''" using tag by simp
    then have "unmatched (match_variant ''_square'') (a @ ?rest) []"
      using assms by (auto simp add: degraded_url_def)
    then have "regex_replace (match_variant ''_square'') ''_master1200.'' (a @ ?rest) = a @ ?rest"
      by (intro regex_replace_none match_variant_Nil) simp_all
    then show ?thesis
      unfolding originalSrc_def Let_def o1 using own c by simp
  qed
qed

lemma loop_iter_dataset:
  "loop_iter s = (s', w) \<Longrightarrow>
     originalPixivSrc s' = originalPixivSrc s \<and> observedImages s' = observedImages s \<and>
     waiting s' = waiting s"
  by (auto simp add: loop_iter_def start_item_def split: list.splits if_splits)

lemma processQueue_dataset:
  "originalPixivSrc (processQueue s) = originalPixivSrc s \<and>
   observedImages (processQueue s) = observedImages s \<and> waiting (processQueue s) = waiting s"
proof -
  obtain s' w where li: "loop_iter (s\<lparr>isProcessing := True\<rparr>) = (s', w)"
    by (cases "loop_iter (s\<lparr>isProcessing := True\<rparr>)")
  show ?thesis
    using loop_iter_dataset [OF li] li by (auto simp add: processQueue_def split: option.splits)
qed

lemma init_empty: "init True [] = (empty_page True)\<lparr>imageObserver_set := True, observing := True\<rparr>"
  by (simp add: init_def processQueue_def empty_page_def)

lemma processQueue_isPixiv: "isPixiv (processQueue s) = isPixiv s"
proof -
  obtain s' w where li: "loop_iter (s\<lparr>isProcessing := True\<rparr>) = (s', w)"
    by (cases "loop_iter (s\<lparr>isProcessing := True\<rparr>)")
  show ?thesis
    using loop_iter_queue [OF li] li by (auto simp add: processQueue_def split: option.splits)
qed

lemma carried_cong:
  "waiting s' = waiting s \<Longrightarrow> observedImages s' = observedImages s \<Longrightarrow>
     originalPixivSrc s' = originalPixivSrc s \<Longrightarrow> carried h u s' = carried h u s"
  by (simp add: carried_def)

lemma check_pixiv_discovery:
  "isPixiv (check_pixiv j orig s) = isPixiv s \<and> waiting (check_pixiv j orig s) = waiting s \<and>
   observedImages s \<subseteq> observedImages (check_pixiv j orig s)"
  by (auto simp add: check_pixiv_def processQueue_isPixiv processQueue_dataset admit_pixiv_def)

lemma check_generic_discovery:
  "isPixiv (check_generic j s) = isPixiv s \<and> waiting (check_generic j s) = waiting s \<and>
   observedImages s \<subseteq> observedImages (check_generic j s) \<and>
   originalPixivSrc (check_generic j s) = originalPixivSrc s"
  by (auto simp add: check_generic_def processQueue_isPixiv processQueue_dataset admit_generic_def)

lemma check_pixiv_carried:
  assumes "carried h u s" and "hid j \<noteq> h \<or> orig = u"
  shows "carried h u (check_pixiv j orig s)"
  using assms by (auto simp add: check_pixiv_def carried_def processQueue_dataset admit_pixiv_def)

lemma check_generic_carried:
  assumes "carried h u s" and "hid j \<noteq> h"
  shows "carried h u (check_generic j s)"
  using assms by (auto simp add: check_generic_def carried_def processQueue_dataset admit_generic_def)

lemma check_pixiv_recorded:
  assumes "passes_pixiv j"
  shows "recorded (hid j) orig (check_pixiv j orig s)"
  using assms by (simp add: recorded_def check_pixiv_def processQueue_dataset admit_pixiv_def)

lemma carried_remove_nth: "carried h u s \<Longrightarrow> carried h u (s\<lparr>waiting := remove_nth k (waiting s)\<rparr>)"
  by (simp add: carried_def list_all_remove_nth)

lemma carried_entry:
  assumes "carried h u s" and "k < length (waiting s)" and "fst (waiting s ! k) = h"
  shows "snd (waiting s ! k) = Some u"
proof -
  have "waiting s ! k \<in> set (waiting s)" using assms(2) by simp
  then show ?thesis using assms(1,3) by (auto simp add: carried_def list_all_iff)
qed

lemma load_settled_eq:
  assumes "carried h u s" and "k < length (waiting s)" and "fst (waiting s ! k) = hid j" and "hid j = h"
  shows "load_settled k j s = check_pixiv j u (s\<lparr>waiting := remove_nth k (waiting s)\<rparr>)"
  using carried_entry [OF assms(1,2)] assms by (simp add: load_settled_def)

lemma load_settled_carried:
  assumes "carried h u s"
  shows "carried h u (load_settled k j s)"
proof (cases "k < length (waiting s) \<and> fst (waiting s ! k) = hid j")
  case False
  then show ?thesis using assms by (auto simp add: load_settled_def)
next
  case True
  let ?s = "s\<lparr>waiting := remove_nth k (waiting s)\<rparr>"
  have c: "carried h u ?s" using assms by (rule carried_remove_nth)
  show ?thesis
  proof (cases "hid j = h")
    case True
    with \<open>k < length (waiting s) \<and> fst (waiting s ! k) = hid j\<close>
    have "load_settled k j s = check_pixiv j u ?s"
      using load_settled_eq [OF assms, of k j] by simp
    then show ?thesis using c check_pixiv_carried [of h u ?s j u] by simp
  next
    case False
    then show ?thesis
      using True c check_pixiv_carried [of h u ?s j] check_generic_carried [of h u ?s j]
      by (simp add: load_settled_def Let_def split: option.splits)
  qed
qed

lemma handleNewImage_carried:
  assumes "isPixiv s" and "carried h u s"
    and "h \<in> observedImages s \<or> hid j \<noteq> h \<or> pixiv_source j = Some src"
    and "u = originalSrc src"
  shows "carried h u (handleNewImage j s)"
proof (cases "hid j \<in> observedImages s \<or> hid j \<in> processedImages s")
  case True
  then show ?thesis using assms(2) by (simp add: handleNewImage_def)
next
  case False
  then have new: "hid j \<noteq> h \<or> pixiv_source j = Some src" using assms(3) by auto
  show ?thesis
  proof (cases "pixiv_source j")
    case None
    then show ?thesis using False assms(1,2) by (simp add: handleNewImage_def)
  next
    case (Some src')
    have u: "hid j \<noteq> h \<or> originalSrc src' = u" using new Some assms(4) by auto
    show ?thesis
    proof (cases "\<not> img_complete j \<or> naturalWidth j = 0")
      case True
      then have "handleNewImage j s = s\<lparr>waiting := waiting s @ [(hid j, Some (originalSrc src'))]\<rparr>"
        using False Some assms(1) by (simp add: handleNewImage_def)
      then show ?thesis using assms(2) u by (auto simp add: carried_def)
    next
      case c: False
      then have "handleNewImage j s = check_pixiv j (originalSrc src') s"
        using False Some assms(1) by (simp add: handleNewImage_def)
      then show ?thesis using assms(2) u check_pixiv_carried [of h u s j "originalSrc src'"] by simp
    qed
  qed
qed

lemma quiet_steps_discovery:
  "isPixiv (extract_done k r s) = isPixiv s \<and> waiting (extract_done k r s) = waiting s \<and>
   observedImages (extract_done k r s) = observedImages s \<and>
   originalPixivSrc (extract_done k r s) = originalPixivSrc s"
  "isPixiv (ocr_done k res s) = isPixiv s \<and> waiting (ocr_done k res s) = waiting s \<and>
   observedImages (ocr_done k res s) = observedImages s \<and>
   originalPixivSrc (ocr_done k res s) = originalPixivSrc s"
  "isPixiv (overlay_done k s) = isPixiv s \<and> waiting (overlay_done k s) = waiting s \<and>
   observedImages (overlay_done k s) = observedImages s \<and>
   originalPixivSrc (overlay_done k s) = originalPixivSrc s"
  "isPixiv (url_changed s) = isPixiv s \<and> waiting (url_changed s) = waiting s \<and>
   observedImages (url_changed s) = observedImages s \<and>
   originalPixivSrc (url_changed s) = originalPixivSrc s"
  "isPixiv (page_leaving s) = isPixiv s \<and> waiting (page_leaving s) = waiting s \<and>
   observedImages (page_leaving s) = observedImages s \<and>
   originalPixivSrc (page_leaving s) = originalPixivSrc s"
  by (simp_all add: extract_done_def ocr_done_def overlay_done_def set_phase_def url_changed_def
      page_leaving_def split: prod.splits phase.splits option.splits ocr_result.splits)

lemma resume_loop_discovery:
  "isPixiv (resume_loop k s) = isPixiv s \<and> waiting (resume_loop k s) = waiting s \<and>
   observedImages (resume_loop k s) = observedImages s \<and>
   originalPixivSrc (resume_loop k s) = originalPixivSrc s"
proof -
  define v where "v = (if snd (workers s ! k) = Thrown
        then s\<lparr>failedImages := insert (fst (workers s ! k)) (failedImages s)\<rparr> else s)"
  have v: "isPixiv v = isPixiv s \<and> waiting v = waiting s \<and> observedImages v = observedImages s \<and>
     originalPixivSrc v = originalPixivSrc s"
    by (simp add: v_def)
  obtain s' w where li: "loop_iter v = (s', w)" by (cases "loop_iter v")
  have "isPixiv s' = isPixiv s \<and> waiting s' = waiting s \<and> observedImages s' = observedImages s \<and>
     originalPixivSrc s' = originalPixivSrc s"
    using loop_iter_queue [OF li] loop_iter_dataset [OF li] v by simp
  then show ?thesis
    using v li
    by (auto simp add: resume_loop_def Let_def v_def [symmetric] split: option.splits)
qed

lemma handleNewImage_discovery:
  "isPixiv (handleNewImage j s) = isPixiv s \<and> observedImages s \<subseteq> observedImages (handleNewImage j s)"
  using check_pixiv_discovery [of j _ s] check_generic_discovery [of j s]
  by (simp add: handleNewImage_def split: option.splits)

lemma load_settled_discovery:
  "isPixiv (load_settled k j s) = isPixiv s \<and> observedImages s \<subseteq> observedImages (load_settled k j s)"
  using check_pixiv_discovery [of j _ "s\<lparr>waiting := remove_nth k (waiting s)\<rparr>"]
    check_generic_discovery [of j "s\<lparr>waiting := remove_nth k (waiting s)\<rparr>"]
  by (simp add: load_settled_def Let_def split: option.splits)

lemma step_discovery:
  "isPixiv (step ev s) = isPixiv s \<and> observedImages s \<subseteq> observedImages (step ev s)"
  using handleNewImage_discovery [of _ s] load_settled_discovery [of _ _ s]
  by (cases ev) (simp_all add: quiet_steps_discovery resume_loop_discovery)

lemma run_isPixiv: "isPixiv (run evs s) = isPixiv s"
  by (induction evs arbitrary: s) (simp_all add: step_discovery)

lemma step_carried:
  assumes "isPixiv s" and "carried h u s"
    and "h \<in> observedImages s \<or> same_source i ev"
    and "pixiv_source i = Some src" and "u = originalSrc src" and "h = hid i"
  shows "carried h u (step ev s)"
proof (cases ev)
  case (Observe j)
  have "h \<in> observedImages s \<or> hid j \<noteq> h \<or> pixiv_source j = Some src"
    using assms(3,4,6) Observe by (auto simp add: same_source_def)
  then have "carried h u (handleNewImage j s)"
    using assms(1,2,5) by (intro handleNewImage_carried) simp_all
  then show ?thesis using Observe assms(2) by simp
next
  case (LoadSettled k j)
  then show ?thesis using assms(2) by (simp add: load_settled_carried)
next
  case (ExtractDone k r)
  then show ?thesis using assms(2) carried_cong [of "extract_done k r s" s] by (simp add: quiet_steps_discovery)
next
  case (OcrDone k res)
  then show ?thesis using assms(2) carried_cong [of "ocr_done k res s" s] by (simp add: quiet_steps_discovery)
next
  case (OverlayDone k)
  then show ?thesis using assms(2) carried_cong [of "overlay_done k s" s] by (simp add: quiet_steps_discovery)
next
  case (Continue k)
  then show ?thesis using assms(2) carried_cong [of "resume_loop k s" s] by (simp add: resume_loop_discovery)
next
  case UrlChange
  then show ?thesis using assms(2) carried_cong [of "url_changed s" s] by (simp add: quiet_steps_discovery)
next
  case Unload
  then show ?thesis using assms(2) carried_cong [of "page_leaving s" s] by (simp add: quiet_steps_discovery)
next
  case Popstate
  then show ?thesis using assms(2) carried_cong [of "page_leaving s" s] by (simp add: quiet_steps_discovery)
qed

lemma run_carried:
  assumes "pixiv_source i = Some src" and "u = originalSrc src" and "h = hid i"
  shows "isPixiv s \<Longrightarrow> carried h u s \<Longrightarrow> h \<in> observedImages s \<or> list_all (same_source i) evs \<Longrightarrow>
     carried h u (run evs s) \<and> observedImages s \<subseteq> observedImages (run evs s)"
proof (induction evs arbitrary: s)
  case Nil
  then show ?case by simp
next
  case (Cons ev evs)
  have c: "carried h u (step ev s)"
    using Cons.prems assms by (intro step_carried [where i = i and src = src]) auto
  have d: "isPixiv (step ev s) \<and> observedImages s \<subseteq> observedImages (step ev s)"
    using Cons.prems(1) step_discovery [of ev s] by simp
  then have "h \<in> observedImages (step ev s) \<or> list_all (same_source i) evs"
    using Cons.prems(3) by auto
  then show ?case
    using Cons.IH [of "step ev s"] c d by auto
qed

text \<open>A record, once made, stays.\<close>

lemma run_recorded:
  assumes "pixiv_source i = Some src" and "isPixiv s" and "carried (hid i) (originalSrc src) s"
    and "hid i \<in> observedImages s"
  shows "recorded (hid i) (originalSrc src) (run evs s)"
proof -
  have "carried (hid i) (originalSrc src) (run evs s) \<and> observedImages s \<subseteq> observedImages (run evs s)"
    using assms by (intro run_carried [where i = i and src = src]) simp_all
  then show ?thesis using assms(4) by (auto simp add: recorded_def carried_def)
qed

text \<open>The initial scan.\<close>

lemma handlePixivImages_other:
  "h \<notin> hid ` set imgs \<Longrightarrow>
     originalPixivSrc (handlePixivImages imgs s) h = originalPixivSrc s h"
  by (induction imgs arbitrary: s) (auto simp add: admit_pixiv_def split: option.splits)

lemma handlePixivImages_discovery:
  "isPixiv (handlePixivImages imgs s) = isPixiv s \<and> waiting (handlePixivImages imgs s) = waiting s \<and>
   observedImages s \<subseteq> observedImages (handlePixivImages imgs s)"
proof (induction imgs arbitrary: s)
  case Nil
  then show ?case by simp
next
  case (Cons j imgs)
  show ?case
    using Cons [of s] Cons [of "admit_pixiv (hid j) (originalSrc (the (pixiv_source j))) s"]
    by (auto simp add: admit_pixiv_def split: option.splits)
qed

lemma handlePixivImages_records:
  assumes "pixiv_source i = Some src" and "passes_pixiv i"
  shows "i \<in> set imgs \<Longrightarrow> distinct (map hid imgs) \<Longrightarrow>
     recorded (hid i) (originalSrc src) (handlePixivImages imgs s)"
proof (induction imgs arbitrary: s)
  case Nil
  then show ?case by simp
next
  case (Cons j imgs)
  show ?case
  proof (cases "i = j")
    case True
    let ?s = "admit_pixiv (hid i) (originalSrc src) s"
    have n: "hid i \<notin> hid ` set imgs" using Cons.prems(2) True by simp
    have "originalPixivSrc (handlePixivImages imgs ?s) (hid i) = Some (originalSrc src)"
      using handlePixivImages_other [OF n, of ?s] by (simp add: admit_pixiv_def)
    moreover have "hid i \<in> observedImages (handlePixivImages imgs ?s)"
      using handlePixivImages_discovery [of imgs ?s] by (auto simp add: admit_pixiv_def)
    ultimately show ?thesis using True assms by (simp add: recorded_def)
  next
    case False
    then have "i \<in> set imgs" "distinct (map hid imgs)" using Cons.prems by auto
    then show ?thesis using Cons.IH by simp
  qed
qed

lemma init_scan_recorded:
  assumes "pixiv_source i = Some src" and "passes_pixiv i" and "i \<in> set imgs"
    and "distinct (map hid imgs)"
  shows "recorded (hid i) (originalSrc src) (run evs (init True imgs))"
proof -
  let ?s = "handlePixivImages imgs (empty_page True)"
  have r: "recorded (hid i) (originalSrc src) ?s"
    using assms by (intro handlePixivImages_records)
  have d: "isPixiv ?s \<and> waiting ?s = []"
    using handlePixivImages_discovery [of imgs "empty_page True"] by (simp add: empty_page_def)
  have i: "isPixiv (init True imgs) \<and> waiting (init True imgs) = [] \<and>
      observedImages (init True imgs) = observedImages ?s \<and>
      originalPixivSrc (init True imgs) = originalPixivSrc ?s"
    using d by (simp add: init_def processQueue_isPixiv processQueue_dataset)
  then have "carried (hid i) (originalSrc src) (init True imgs)" "hid i \<in> observedImages (init True imgs)"
    using r by (simp_all add: carried_def recorded_def)
  then show ?thesis
    using assms(1) i by (intro run_recorded) simp_all
qed

text \<open>Mutation-driven discovery.\<close>

lemma settle_recorded:
  assumes "pixiv_source i = Some src" and "isPixiv t" and "carried (hid i) (originalSrc src) t"
    and "k < length (waiting t)" and "fst (waiting t ! k) = hid i" and "hid i2 = hid i"
    and "passes_pixiv i2"
  shows "recorded (hid i) (originalSrc src) (run later (step (LoadSettled k i2) t))"
proof -
  let ?u = "originalSrc src"
  let ?t = "t\<lparr>waiting := remove_nth k (waiting t)\<rparr>"
  have e: "step (LoadSettled k i2) t = check_pixiv i2 ?u ?t"
    using load_settled_eq [OF assms(3,4), of i2] assms(5,6) by simp
  have r: "recorded (hid i) ?u (step (LoadSettled k i2) t)"
    using check_pixiv_recorded [OF assms(7), of ?u ?t] e assms(6) by simp
  have c: "carried (hid i) ?u (step (LoadSettled k i2) t)"
    using assms(3) by (simp add: load_settled_carried)
  have p: "isPixiv (step (LoadSettled k i2) t)"
    using assms(2) step_discovery [of "LoadSettled k i2" t] by simp
  show ?thesis
    using assms(1) p c r by (intro run_recorded) (simp_all add: recorded_def)
qed

lemma observe_outcome:
  assumes "pixiv_source i = Some src" and "isPixiv s" and "observing s"
    and "hid i \<notin> observedImages s" and "hid i \<notin> processedImages s"
  shows "(img_complete i \<and> naturalWidth i \<noteq> 0 \<and> passes_pixiv i \<longrightarrow>
            hid i \<in> observedImages (step (Observe i) s)) \<and>
         (img_complete i \<and> naturalWidth i \<noteq> 0 \<or>
            (hid i, Some (originalSrc src)) \<in> set (waiting (step (Observe i) s)))"
  using assms by (auto simp add: handleNewImage_def check_pixiv_def processQueue_dataset admit_pixiv_def)

text \<open>
  For a recorded URL on the asset domain the acquisition sends the offscreen message
  first; the direct draw is tried only after that has failed.
\<close>

lemma extract_recorded_pixiv:
  assumes "includes_str u ''pximg.net''"
  shows "fst (extractImageData env pc href (Some u) j) =
           (if pc \<or> num_or (naturalWidth j) (img_width j) < 200 \<or>
               num_or (naturalHeight j) (img_height j) < 200 then []
            else if offscreen_payload (offscreen_reply env \<lparr>msg_url = u, msg_referer = href\<rparr>) = None
            then [Offscreen u, DirectDraw] else [Offscreen u])"
proof -
  have ne: "u \<noteq> []" using assms(1) by auto
  have nb: "u \<noteq> ''about:blank''" using assms(1) by auto
  show ?thesis
    using ne nb assms(1)
    by (simp add: extractImageData_def opt_or_def Let_def split: option.splits)
qed

text \<open>
  Claim C6, as amended. Take an image on a hostile-host page whose resolved source names
  the asset domain and then has an optional resize-proxy segment \<^verbatim>\<open>/c/<W>x<H>...\<close>
  and a degraded-variant suffix (\<^verbatim>\<open>_square<digits>.\<close> or \<^verbatim>\<open>_custom<digits>.\<close>),
  the segment and the suffix being the first matches of their patterns in the URI, with
  no suffix of the other kind. Then:
  \<^item> the derived URL is the source with the segment stripped and the suffix replaced by
    \<^verbatim>\<open>_master1200.\<close>;
  \<^item> the initial scan over any list of elements that contains the element (each element
    once, as \<^verbatim>\<open>querySelectorAll\<close> lists them), if it passes the size floor, records
    the derived URL on it, and the record stays whatever happens later;
  \<^item> the mutation callback in any state of a hostile-host page in which the element is not
    yet observed or processed, and in which no suspended discovery call carries another
    URL for it, either admits it at once (loaded and passing the size floor) and records
    the derived URL, or suspends a discovery call that carries the derived URL; as long
    as the element does not resolve to another source in a later callback, every
    suspended call for it carries the derived URL and a record on it is the derived URL;
    and when such a call resumes with the element passing the size floor, the derived
    URL is recorded and stays;
  \<^item> the acquisition of an element with this record tries nothing when the page is
    changing or the element is below 200 pixels in either dimension, and otherwise sends
    the derived URL through the offscreen relay first and draws directly only when the
    relay has failed.
\<close>

theorem degraded_source_canonical_and_relayed:
  assumes "pixiv_source i = Some (a @ seg @ b @ tag @ ds @ ''.'' @ ext)"
    and "degraded_url a seg b tag ds ext"
  shows "let u = a @ b @ ''_master1200.'' @ ext in
     originalSrc (a @ seg @ b @ tag @ ds @ ''.'' @ ext) = u \<and>
     (i \<in> set imgs \<and> distinct (map hid imgs) \<and> passes_pixiv i \<longrightarrow>
        recorded (hid i) u (run evs (init True imgs))) \<and>
     (isPixiv s \<and> observing s \<and> hid i \<notin> observedImages s \<and> hid i \<notin> processedImages s \<and>
      carried (hid i) u s \<and> list_all (same_source i) evs \<longrightarrow>
        (let t = run evs (step (Observe i) s) in
           carried (hid i) u t \<and>
           (img_complete i \<and> naturalWidth i \<noteq> 0 \<and> passes_pixiv i \<longrightarrow> recorded (hid i) u t) \<and>
           (img_complete i \<and> naturalWidth i \<noteq> 0 \<or>
              (hid i, Some u) \<in> set (waiting (step (Observe i) s))) \<and>
           (k < length (waiting t) \<and> fst (waiting t ! k) = hid i \<and> hid i2 = hid i \<and>
            passes_pixiv i2 \<longrightarrow>
              recorded (hid i) u (run later (step (LoadSettled k i2) t))))) \<and>
     fst (extractImageData env pc href (Some u) j) =
       (if pc \<or> num_or (naturalWidth j) (img_width j) < 200 \<or>
           num_or (naturalHeight j) (img_height j) < 200 then []
        else if offscreen_payload (offscreen_reply env \<lparr>msg_url = u, msg_referer = href\<rparr>) = None
        then [Offscreen u, DirectDraw] else [Offscreen u])"
proof -
  let ?src = "a @ seg @ b @ tag @ ds @ ''.'' @ ext"
  define u where "u = a @ b @ ''_master1200.'' @ ext"
  have o: "originalSrc ?src = u"
    unfolding u_def using assms(2) by (rule originalSrc_degraded)
  have scan: "recorded (hid i) u (run evs (init True imgs))"
    if "i \<in> set imgs" "distinct (map hid imgs)" "passes_pixiv i"
    using init_scan_recorded [OF assms(1) that(3,1,2), of evs] o by simp
  have mut: "carried (hid i) u (run evs (step (Observe i) s)) \<and>
       (img_complete i \<and> naturalWidth i \<noteq> 0 \<and> passes_pixiv i \<longrightarrow>
          recorded (hid i) u (run evs (step (Observe i) s))) \<and>
       (img_complete i \<and> naturalWidth i \<noteq> 0 \<or>
          (hid i, Some u) \<in> set (waiting (step (Observe i) s))) \<and>
       (k < length (waiting (run evs (step (Observe i) s))) \<and>
        fst (waiting (run evs (step (Observe i) s)) ! k) = hid i \<and> hid i2 = hid i \<and>
        passes_pixiv i2 \<longrightarrow>
          recorded (hid i) u (run later (step (LoadSettled k i2) (run evs (step (Observe i) s)))))"
    if h: "isPixiv s" "observing s" "hid i \<notin> observedImages s" "hid i \<notin> processedImages s"
      "carried (hid i) u s" "list_all (same_source i) evs"
  proof -
    define t where "t = run evs (step (Observe i) s)"
    have out: "(img_complete i \<and> naturalWidth i \<noteq> 0 \<and> passes_pixiv i \<longrightarrow>
            hid i \<in> observedImages (step (Observe i) s)) \<and>
         (img_complete i \<and> naturalWidth i \<noteq> 0 \<or>
            (hid i, Some u) \<in> set (waiting (step (Observe i) s)))"
      using observe_outcome [OF assms(1) h(1,2,3,4)] o by simp
    have self: "same_source i (Observe i)" by (simp add: same_source_def)
    have c1: "carried (hid i) u (step (Observe i) s)"
      using h(1,5) self assms(1) o by (intro step_carried [where i = i and src = ?src]) simp_all
    have p1: "isPixiv (step (Observe i) s) \<and> observedImages s \<subseteq> observedImages (step (Observe i) s)"
      using h(1) step_discovery [of "Observe i" s] by simp
    have ct: "carried (hid i) u t \<and> observedImages (step (Observe i) s) \<subseteq> observedImages t"
      unfolding t_def using p1 c1 h(6) assms(1) o
      by (intro run_carried [where i = i and src = ?src]) simp_all
    have pt: "isPixiv t"
      unfolding t_def using p1 by (simp add: run_isPixiv)
    have direct: "recorded (hid i) u t" if "img_complete i \<and> naturalWidth i \<noteq> 0 \<and> passes_pixiv i"
      using that out ct by (auto simp add: recorded_def carried_def)
    have later: "recorded (hid i) u (run later (step (LoadSettled k i2) t))"
      if "k < length (waiting t) \<and> fst (waiting t ! k) = hid i \<and> hid i2 = hid i \<and> passes_pixiv i2"
      using settle_recorded [OF assms(1) pt, of k i2 later] ct that o by simp
    show ?thesis
      using ct out direct later unfolding t_def [symmetric] by blast
  qed
  have "includes_str a ''pximg.net''"
    using assms(2) by (simp add: degraded_url_def)
  then have "includes_str u ''pximg.net''"
    unfolding u_def by (rule includes_str_append)
  then have acq: "fst (extractImageData env pc href (Some u) j) =
       (if pc \<or> num_or (naturalWidth j) (img_width j) < 200 \<or>
           num_or (naturalHeight j) (img_height j) < 200 then []
        else if offscreen_payload (offscreen_reply env \<lparr>msg_url = u, msg_referer = href\<rparr>) = None
        then [Offscreen u, DirectDraw] else [Offscreen u])"
    by (rule extract_recorded_pixiv)
  from o scan mut acq show ?thesis
    unfolding Let_def u_def [symmetric] by blast
qed

lemma pixiv_source_loading:
  "pixiv_source (i\<lparr>img_complete := c, naturalWidth := w, naturalHeight := ht\<rparr>) = pixiv_source i"
  by (simp add: pixiv_source_def first_src_def cong: if_cong)

theorem degraded_source_canonical_and_relayed_witness:
  "pixiv_source img_sample =
     Some ''https://i.pximg.net/c/540x540_70/img-original/img/2024/01/02/03/04/05/sample_p0_square1200.jpg'' \<and>
   originalSrc ''https://i.pximg.net/c/540x540_70/img-original/img/2024/01/02/03/04/05/sample_p0_square1200.jpg'' =
     ''https://i.pximg.net/img-original/img/2024/01/02/03/04/05/sample_p0_master1200.jpg'' \<and>
   recorded 7 ''https://i.pximg.net/img-original/img/2024/01/02/03/04/05/sample_p0_master1200.jpg''
     (run [ExtractDone 0 None, Popstate] (init True [img_small_px, img_sample])) \<and>
   recorded 7 ''https://i.pximg.net/img-original/img/2024/01/02/03/04/05/sample_p0_master1200.jpg''
     (run [Unload]
       (step (LoadSettled 0 img_sample)
         (step (Observe (img_sample\<lparr>img_complete := False, naturalWidth := 0, naturalHeight := 0\<rparr>))
           (init True [])))) \<and>
   fst (extractImageData
         \<lparr>offscreen_reply = (\<lambda>m. Some (Success ''data:image/png;base64,AA'' 24)),
          direct_draw = None, background_reply = (\<lambda>m. None), redraw_fetched = (\<lambda>d. None)\<rparr>
         False ''https://www.pixiv.net/artworks/1''
         (Some ''https://i.pximg.net/img-original/img/2024/01/02/03/04/05/sample_p0_master1200.jpg'')
         img_sample) =
     [Offscreen ''https://i.pximg.net/img-original/img/2024/01/02/03/04/05/sample_p0_master1200.jpg'']"
proof -
  define l where "l = img_sample\<lparr>img_complete := False, naturalWidth := 0, naturalHeight := 0\<rparr>"
  define s where "s = init True []"
  define env where "env = \<lparr>offscreen_reply = (\<lambda>m. Some (Success ''data:image/png;base64,AA'' 24)),
          direct_draw = None, background_reply = (\<lambda>m. None :: fetch_image_response option),
          redraw_fetched = (\<lambda>d. None :: string option)\<rparr>"
  have src: "pixiv_source img_sample = Some (''https://i.pximg.net'' @ ''/c/540x540_70'' @
      ''/img-original/img/2024/01/02/03/04/05/sample_p0'' @ ''_square'' @ ''1200'' @ ''.'' @ ''jpg'')"
    by (simp add: pixiv_source_def img_sample_def srcset_sources_def trim_def js_whitespace_def Let_def)
  have srcl: "pixiv_source l = Some (''https://i.pximg.net'' @ ''/c/540x540_70'' @
      ''/img-original/img/2024/01/02/03/04/05/sample_p0'' @ ''_square'' @ ''1200'' @ ''.'' @ ''jpg'')"
    unfolding l_def pixiv_source_loading by (rule src)
  have wf: "degraded_url ''https://i.pximg.net'' ''/c/540x540_70''
      ''/img-original/img/2024/01/02/03/04/05/sample_p0'' ''_square'' ''1200'' ''jpg''"
    by (simp add: degraded_url_def resize_segment_def match_resize_def match_variant_def
        match_lit_def match_digits_def is_digit_def Let_def)
  have size: "passes_pixiv img_sample"
    by (simp add: passes_pixiv_def img_sample_def num_or_def)
  have h: "hid img_sample = 7" "hid l = 7" "\<not> img_complete l"
    "\<not> num_or (naturalWidth img_sample) (img_width img_sample) < 200"
    "\<not> num_or (naturalHeight img_sample) (img_height img_sample) < 200"
    by (simp_all add: img_sample_def l_def num_or_def)
  have scan: "img_sample \<in> set [img_small_px, img_sample] \<and> distinct (map hid [img_small_px, img_sample])"
    by (simp add: img_small_px_def sample_img_def img_sample_def)
  have s: "isPixiv s \<and> observing s \<and> hid l \<notin> observedImages s \<and> hid l \<notin> processedImages s \<and>
      waiting s = []"
    unfolding s_def by (simp add: init_empty empty_page_def)
  then have car: "carried (hid l) u s" for u by (simp add: carried_def)
  have w: "waiting (step (Observe l) s) =
      [(7, Some (originalSrc ''https://i.pximg.net/c/540x540_70/img-original/img/2024/01/02/03/04/05/sample_p0_square1200.jpg''))]"
    using s srcl h by (simp add: handleNewImage_def)
  have a: "originalSrc ''https://i.pximg.net/c/540x540_70/img-original/img/2024/01/02/03/04/05/sample_p0_square1200.jpg'' =
     ''https://i.pximg.net/img-original/img/2024/01/02/03/04/05/sample_p0_master1200.jpg'' \<and>
     recorded 7 ''https://i.pximg.net/img-original/img/2024/01/02/03/04/05/sample_p0_master1200.jpg''
       (run [ExtractDone 0 None, Popstate] (init True [img_small_px, img_sample])) \<and>
     fst (extractImageData env False ''https://www.pixiv.net/artworks/1''
         (Some ''https://i.pximg.net/img-original/img/2024/01/02/03/04/05/sample_p0_master1200.jpg'')
         img_sample) =
     [Offscreen ''https://i.pximg.net/img-original/img/2024/01/02/03/04/05/sample_p0_master1200.jpg'']"
    using degraded_source_canonical_and_relayed [OF src wf,
      of "[img_small_px, img_sample]" "[ExtractDone 0 None, Popstate]" s 0 img_sample "[]"
         env False "''https://www.pixiv.net/artworks/1''" img_sample]
      scan size h
    unfolding Let_def by (simp add: env_def offscreen_payload_def)
  have b: "recorded 7 ''https://i.pximg.net/img-original/img/2024/01/02/03/04/05/sample_p0_master1200.jpg''
     (run [Unload] (step (LoadSettled 0 img_sample) (step (Observe l) s)))"
    using degraded_source_canonical_and_relayed [OF srcl wf,
      of "[]" "[]" s 0 img_sample "[Unload]" env False "[]" img_sample]
      s car w size h
    unfolding Let_def by simp
  from src a b show ?thesis
    unfolding l_def s_def env_def by simp
qed

text \<open>
  The claim as stated fails for a source in which the pattern of a suffix occurs before
  the file name: the first occurrence is replaced, the degraded-variant suffix of the
  file name stays, and this URL is what discovery records.
\<close>

theorem directory_suffix_rewritten_counterexample:
  "pixiv_source img_custom_dir = Some ''https://i.pximg.net/user_custom1.d/img/1_p0_custom1200.jpg'' \<and>
   originalSrc ''https://i.pximg.net/user_custom1.d/img/1_p0_custom1200.jpg'' =
     ''https://i.pximg.net/user_master1200.d/img/1_p0_custom1200.jpg'' \<and>
   originalPixivSrc (init True [img_custom_dir]) 8 =
     Some ''https://i.pximg.net/user_master1200.d/img/1_p0_custom1200.jpg''"
proof -
  have src: "pixiv_source img_custom_dir = Some ''https://i.pximg.net/user_custom1.d/img/1_p0_custom1200.jpg''"
    by (simp add: pixiv_source_def img_custom_dir_def first_src_def)
  have o: "originalSrc ''https://i.pximg.net/user_custom1.d/img/1_p0_custom1200.jpg'' =
     ''https://i.pximg.net/user_master1200.d/img/1_p0_custom1200.jpg''"
    by (simp add: originalSrc_def match_resize_def match_variant_def match_lit_def
        match_digits_def is_digit_def Let_def)
  have p: "passes_pixiv img_custom_dir" "hid img_custom_dir = 8"
    by (simp_all add: passes_pixiv_def img_custom_dir_def num_or_def)
  have "originalPixivSrc (init True [img_custom_dir]) 8 =
     Some (originalSrc ''https://i.pximg.net/user_custom1.d/img/1_p0_custom1200.jpg'')"
    using src p by (simp add: init_def processQueue_dataset admit_pixiv_def)
  with src o show ?thesis by simp
qed

section \<open>Per-item processing: one OCR request per element\<close>

lemma loop_iter_flight:
  assumes "loop_iter s = (s', w)" and "failedImages s \<subseteq> processedImages s"
    and "set (ocr_log s) \<subseteq> processedImages s"
  shows "processedImages s \<subseteq> processedImages s' \<and> failedImages s' = failedImages s \<and>
         ocr_log s' = ocr_log s \<and> workers s' = workers s \<and>
         (case w of None \<Rightarrow> True | Some wk \<Rightarrow> worker_ok s' wk)"
  using assms
  by (auto simp add: loop_iter_def start_item_def worker_ok_def in_flight_def
      split: list.splits if_splits)

lemma worker_ok_mono:
  "worker_ok s w \<Longrightarrow> processedImages s \<subseteq> processedImages s' \<Longrightarrow>
     failedImages s' = failedImages s \<Longrightarrow> ocr_log s' = ocr_log s \<Longrightarrow> worker_ok s' w"
  by (auto simp add: worker_ok_def)

lemma processQueue_flight:
  assumes "flight_inv s" and "drain_inv s"
  shows "flight_inv (processQueue s)"
proof (cases "isProcessing s \<or> processingQueue s = []")
  case True
  then show ?thesis using assms(1) by (simp add: processQueue_def)
next
  case False
  then have idle: "workers s = []" using assms(2) by (simp add: drain_inv_def)
  obtain s' w where li: "loop_iter (s\<lparr>isProcessing := True\<rparr>) = (s', w)"
    by (cases "loop_iter (s\<lparr>isProcessing := True\<rparr>)")
  have f: "processedImages s \<subseteq> processedImages s' \<and> failedImages s' = failedImages s \<and>
         ocr_log s' = ocr_log s \<and> workers s' = [] \<and>
         (case w of None \<Rightarrow> True | Some wk \<Rightarrow> worker_ok s' wk)"
    using loop_iter_flight [OF li] assms(1) idle by (simp add: flight_inv_def)
  have pq: "processQueue s = (case w of None \<Rightarrow> s' | Some wk \<Rightarrow> s'\<lparr>workers := workers s' @ [wk]\<rparr>)"
    using False li by (simp add: processQueue_def)
  show ?thesis
    unfolding pq using f assms(1)
    by (cases w) (auto simp add: flight_inv_def worker_ok_def)
qed

lemma admit_flight:
  "flight_inv s \<Longrightarrow> flight_inv (admit_generic h s)"
  "flight_inv s \<Longrightarrow> flight_inv (admit_pixiv h orig s)"
  by (simp_all add: flight_inv_def admit_generic_def admit_pixiv_def worker_ok_def list_all_iff)

lemma check_flight:
  "flight_inv s \<Longrightarrow> drain_inv s \<Longrightarrow> flight_inv (check_generic i s)"
  "flight_inv s \<Longrightarrow> drain_inv s \<Longrightarrow> flight_inv (check_pixiv i orig s)"
  by (simp_all add: check_generic_def check_pixiv_def processQueue_flight admit_flight
      admit_generic_inv admit_pixiv_inv)

lemma waiting_flight: "flight_inv s \<Longrightarrow> flight_inv (s\<lparr>waiting := w\<rparr>)"
  by (simp add: flight_inv_def worker_ok_def list_all_iff)

lemma handleNewImage_flight: "flight_inv s \<Longrightarrow> drain_inv s \<Longrightarrow> flight_inv (handleNewImage i s)"
  by (simp add: handleNewImage_def check_flight waiting_flight split: option.splits)

lemma load_settled_flight: "flight_inv s \<Longrightarrow> drain_inv s \<Longrightarrow> flight_inv (load_settled k i s)"
  by (simp add: load_settled_def Let_def check_flight waiting_flight waiting_update_inv
      split: option.splits)

lemma only_worker:
  assumes "drain_inv s" and "k < length (workers s)"
  obtains e ph where "k = 0" and "workers s = [(e, ph)]"
proof -
  have "length (workers s) \<le> 1" using assms(1) by (simp add: drain_inv_def)
  then obtain w where "workers s = [w]" and "k = 0"
    using assms(2) by (cases "workers s") auto
  then show ?thesis using that by (cases w) auto
qed

lemma only_worker_ok: "flight_inv s \<Longrightarrow> workers s = [w] \<Longrightarrow> worker_ok s w"
  by (simp add: flight_inv_def)

lemma extract_done_flight:
  assumes "flight_inv s" and "drain_inv s"
  shows "flight_inv (extract_done k r s)"
proof (cases "k < length (workers s)")
  case False
  then show ?thesis using assms(1) by (simp add: extract_done_def)
next
  case True
  then obtain e ph where k: "k = 0" and ws: "workers s = [(e, ph)]"
    using only_worker [OF assms(2)] by blast
  have ok: "worker_ok s (e, ph)"
    using assms(1) ws by (rule only_worker_ok)
  show ?thesis
    using assms(1) ok ws k
    by (cases ph; cases r)
       (auto simp add: extract_done_def set_phase_def flight_inv_def worker_ok_def in_flight_def)
qed

lemma ocr_done_flight:
  assumes "flight_inv s" and "drain_inv s"
  shows "flight_inv (ocr_done k res s)"
proof (cases "k < length (workers s)")
  case False
  then show ?thesis using assms(1) by (simp add: ocr_done_def)
next
  case True
  then obtain e ph where k: "k = 0" and ws: "workers s = [(e, ph)]"
    using only_worker [OF assms(2)] by blast
  have ok: "worker_ok s (e, ph)"
    using assms(1) ws by (rule only_worker_ok)
  show ?thesis
    using assms(1) ok ws k
    by (cases ph; cases res)
       (auto simp add: ocr_done_def set_phase_def flight_inv_def worker_ok_def in_flight_def)
qed

lemma overlay_done_flight:
  assumes "flight_inv s" and "drain_inv s"
  shows "flight_inv (overlay_done k s)"
proof (cases "k < length (workers s)")
  case False
  then show ?thesis using assms(1) by (simp add: overlay_done_def)
next
  case True
  then obtain e ph where k: "k = 0" and ws: "workers s = [(e, ph)]"
    using only_worker [OF assms(2)] by blast
  have ok: "worker_ok s (e, ph)"
    using assms(1) ws by (rule only_worker_ok)
  show ?thesis
    using assms(1) ok ws k
    by (cases ph)
       (auto simp add: overlay_done_def set_phase_def flight_inv_def worker_ok_def in_flight_def)
qed

lemma nav_flight:
  "flight_inv s \<Longrightarrow> flight_inv (url_changed s)"
  "flight_inv s \<Longrightarrow> flight_inv (page_leaving s)"
  by (simp_all add: flight_inv_def url_changed_def page_leaving_def worker_ok_def list_all_iff)

lemma resume_loop_flight:
  assumes "flight_inv s" and "drain_inv s"
  shows "flight_inv (resume_loop k s)"
proof (cases "k < length (workers s) \<and> (snd (workers s ! k) = Settled \<or> snd (workers s ! k) = Thrown)")
  case False
  then have "resume_loop k s = s" by (auto simp add: resume_loop_def)
  then show ?thesis using assms(1) by simp
next
  case True
  then obtain e ph where k: "k = 0" and ws: "workers s = [(e, ph)]"
    using only_worker [OF assms(2)] by blast
  have ok: "worker_ok s (e, ph)"
    using assms(1) ws by (rule only_worker_ok)
  have ph: "ph = Settled \<or> ph = Thrown" using True k ws by simp
  define s0 where "s0 = (if ph = Thrown then s\<lparr>failedImages := insert e (failedImages s)\<rparr> else s)"
  have s0: "failedImages s0 \<subseteq> processedImages s0" "set (ocr_log s0) \<subseteq> processedImages s0"
    "distinct (ocr_log s0)" "workers s0 = [(e, ph)]"
    using assms(1) ok ws ph by (auto simp add: s0_def flight_inv_def worker_ok_def)
  have rl: "resume_loop k s =
        (if isPageChanging s0 then s0\<lparr>isProcessing := False, workers := remove_nth 0 (workers s0)\<rparr>
         else let (s', w) = loop_iter s0
              in case w of None \<Rightarrow> s'\<lparr>workers := remove_nth 0 (workers s')\<rparr>
                         | Some wk \<Rightarrow> s'\<lparr>workers := (workers s')[0 := wk]\<rparr>)"
    using True k ws by (simp add: resume_loop_def s0_def Let_def)
  show ?thesis
  proof (cases "isPageChanging s0")
    case True
    then show ?thesis
      unfolding rl using s0 by (simp add: flight_inv_def remove_nth_def)
  next
    case False
    obtain s' w' where li: "loop_iter s0 = (s', w')" by (cases "loop_iter s0")
    have f: "processedImages s0 \<subseteq> processedImages s' \<and> failedImages s' = failedImages s0 \<and>
         ocr_log s' = ocr_log s0 \<and> workers s' = workers s0 \<and>
         (case w' of None \<Rightarrow> True | Some wk \<Rightarrow> worker_ok s' wk)"
      using loop_iter_flight [OF li] s0 by simp
    show ?thesis
      unfolding rl using False li f s0
      by (cases w') (auto simp add: flight_inv_def remove_nth_def worker_ok_def)
  qed
qed

lemma step_flight: "flight_inv s \<Longrightarrow> drain_inv s \<Longrightarrow> flight_inv (step ev s)"
  by (cases ev)
     (simp_all add: handleNewImage_flight load_settled_flight extract_done_flight ocr_done_flight
        overlay_done_flight resume_loop_flight nav_flight)

lemma run_flight: "flight_inv s \<Longrightarrow> drain_inv s \<Longrightarrow> flight_inv (run evs s)"
  by (induction evs arbitrary: s) (simp_all add: step_flight step_inv)

lemma scan_flight:
  "flight_inv s \<Longrightarrow> flight_inv (queueAllImages imgs s)"
  "flight_inv s \<Longrightarrow> flight_inv (handlePixivImages imgs s)"
  by (induction imgs arbitrary: s) (simp_all add: admit_flight split: option.splits)

lemma init_flight: "flight_inv (init px imgs)"
proof -
  have e: "flight_inv (empty_page px)" "drain_inv (empty_page px)"
    by (simp_all add: flight_inv_def drain_inv_def empty_page_def)
  have obs: "flight_inv s \<Longrightarrow> flight_inv (s\<lparr>imageObserver_set := True, observing := True\<rparr>)" for s
    by (simp add: flight_inv_def worker_ok_def list_all_iff)
  show ?thesis
    using e
    by (cases px)
       (simp_all add: init_def processQueue_flight obs scan_flight observer_setup_inv
          queueAllImages_inv handlePixivImages_inv)
qed

lemma reachable_flight: "flight_inv (run evs (init px imgs))"
  by (rule run_flight) (rule init_flight, rule init_inv)

text \<open>
  However often an element has been queued, it is sent to the OCR server at most once
  in the life of a page instance.
\<close>

lemma single_ocr_submission: "distinct (ocr_log (run evs (init px imgs)))"
  using reachable_flight [of evs px imgs] by (simp add: flight_inv_def)

text \<open>
  In the current content script, in every reachable state: when the OCR call of the
  element in flight returns an empty list of text blocks, the element is in the
  processed set, it is not in the failed set, and no overlay is begun.
\<close>

lemma empty_blocks_benign:
  assumes "s = run evs (init px imgs)" and "k < length (workers s)"
    and "workers s ! k = (e, OcrCall p)"
  shows "e \<in> processedImages (step (OcrDone k (OcrBlocks [])) s) \<and>
         e \<notin> failedImages (step (OcrDone k (OcrBlocks [])) s) \<and>
         overlay_log (step (OcrDone k (OcrBlocks [])) s) = overlay_log s"
proof -
  have "flight_inv s" unfolding assms(1) by (rule reachable_flight)
  then have "list_all (worker_ok s) (workers s)" by (simp add: flight_inv_def)
  then have "worker_ok s (e, OcrCall p)"
    using assms(2,3) by (metis list_all_length)
  then have "e \<in> processedImages s \<and> e \<notin> failedImages s"
    by (simp add: worker_ok_def in_flight_def)
  then show ?thesis
    using ocr_done_empty_blocks [of k s] by simp
qed

section \<open>Background service worker: what holds of the fallback chain\<close>

lemma try_fetch_blob: "snd (try_fetch net log url) = blob_of (net (length log) (mk_request url))"
  by (simp add: try_fetch_def blob_of_def Let_def split: fetch_result.splits)

text \<open>
  For a URL with the lossy-format segment, the attempts end without a blob exactly when
  each of the three requests is refused, unreachable or unreadable; and the blob that
  the chain delivers is that of the first attempt that yields one. Only the emptiness
  of a delivered blob is not looked at before the chain ends.
\<close>

lemma fetch_attempts_first_blob:
  assumes "includes_str url ''_webp/''"
  shows "snd (fetch_attempts net url) =
           (case blob_of (net 0 (mk_request url)) of
              Some b \<Rightarrow> Some b
            | None \<Rightarrow>
                (case blob_of (net 1 (mk_request (jpg_variant url))) of
                   Some b \<Rightarrow> Some b
                 | None \<Rightarrow> blob_of (net 2 (mk_request (png_variant url)))))"
proof -
  obtain l1 b1 where t1: "try_fetch net [] url = (l1, b1)" by (cases "try_fetch net [] url")
  then have l1: "l1 = [mk_request url]" and b1: "b1 = blob_of (net 0 (mk_request url))"
    using try_fetch_log [of net "[]" url] try_fetch_blob [of net "[]" url] by simp_all
  obtain l2 b2 where t2: "try_fetch net l1 (jpg_variant url) = (l2, b2)"
    by (cases "try_fetch net l1 (jpg_variant url)")
  then have l2: "length l2 = 2" and b2: "b2 = blob_of (net 1 (mk_request (jpg_variant url)))"
    using try_fetch_log [of net l1 "jpg_variant url"] try_fetch_blob [of net l1 "jpg_variant url"] l1
    by simp_all
  have b3: "snd (try_fetch net l2 (png_variant url)) = blob_of (net 2 (mk_request (png_variant url)))"
    using try_fetch_blob [of net l2 "png_variant url"] l2 by simp
  show ?thesis
    using assms t1 t2 b1 b2 b3
    by (auto simp add: fetch_attempts_def split: option.splits prod.splits)
qed

text \<open>
  The older FETCH_IMAGE handler sets the fixed referrer for a URL on the asset domain
  itself, whatever referer the message names.
\<close>

lemma legacy_request_referrer:
  "includes_str (msg_url m) ''pximg.net'' \<Longrightarrow>
     req_referrer (mk_request_legacy m) = Some ''https://www.pixiv.net/''"
  by (simp add: mk_request_legacy_def)

end
